theory Spec2Isabelle
  imports Main "HOL-Library.AList"
begin

section \<open>Data model\<close>

text \<open>
  A cell is a pair (row, column) of Python integers.  An inequality constraint is a
  triple of two cells and an operator string.  Python sets of integers are modelled
  as lists without duplicates (the list order stands for the iteration order of the
  set, which Python leaves to the implementation); the dictionary of domains is a
  partial map from cells to such lists.

  The grid is a Python list of row objects.  The constructor keeps the list it is
  given, and \<open>assign\<close> and \<open>unassign\<close> write into its rows in place, so two rows
  that are one list object change together.  The model therefore keeps the rows in a
  store: \<open>rows\<close> holds, for each row index, the address of the row object, and
  \<open>store\<close> holds the content of the object at each address.  \<open>grid_rows\<close> is the
  grid as it reads, \<open>fresh_grid\<close> is a grid written as a literal list of lists
  (every row an object of its own).
\<close>

type_synonym cell = "int \<times> int"

type_synonym constraint = "cell \<times> cell \<times> string"

datatype error = IndexError | KeyError | RecursionError

record pygrid =
  rows :: "nat list"
  store :: "nat \<Rightarrow> int list"

definition grid_rows :: "pygrid \<Rightarrow> int list list" where
  "grid_rows g = map (store g) (rows g)"

definition fresh_grid :: "int list list \<Rightarrow> pygrid" where
  "fresh_grid g = \<lparr>rows = [0..<length g], store = (\<lambda>a. if a < length g then g ! a else [])\<rparr>"

record board =
  board_size :: int
  grid :: pygrid
  domains :: "cell \<rightharpoonup> int list"
  inequality_constraints :: "constraint list"

subsection \<open>Python list indexing\<close>

text \<open>
  Python accepts an index \<open>i\<close> with \<open>-n \<le> i < n\<close> on a list of length \<open>n\<close>; a negative
  index counts from the end, anything else raises IndexError.
\<close>

definition py_index :: "nat \<Rightarrow> int \<Rightarrow> nat option" where
  "py_index n i =
     (if 0 \<le> i \<and> i < int n then Some (nat i)
      else if - int n \<le> i \<and> i < 0 then Some (nat (int n + i))
      else None)"

text \<open>
  \<open>grid[r][c]\<close> and \<open>grid[r][c] = v\<close>.  The write replaces the content of the row
  object at its address, so it shows in every row index that holds this address.
\<close>

definition grid_get :: "pygrid \<Rightarrow> cell \<Rightarrow> error + int" where
  "grid_get g rc =
     (case py_index (length (rows g)) (fst rc) of
        None \<Rightarrow> Inl IndexError
      | Some i \<Rightarrow>
          (case py_index (length (store g (rows g ! i))) (snd rc) of
             None \<Rightarrow> Inl IndexError
           | Some j \<Rightarrow> Inr (store g (rows g ! i) ! j)))"

definition grid_set :: "pygrid \<Rightarrow> cell \<Rightarrow> int \<Rightarrow> error + pygrid" where
  "grid_set g rc v =
     (case py_index (length (rows g)) (fst rc) of
        None \<Rightarrow> Inl IndexError
      | Some i \<Rightarrow>
          (case py_index (length (store g (rows g ! i))) (snd rc) of
             None \<Rightarrow> Inl IndexError
           | Some j \<Rightarrow>
               Inr (g\<lparr>store := (store g)(rows g ! i := (store g (rows g ! i))[j := v])\<rparr>)))"

text \<open>\<open>range(size)\<close>, and the cells of the board in row-major order.\<close>

definition range_list :: "int \<Rightarrow> int list" where
  "range_list n = [0..n - 1]"

definition variables :: "int \<Rightarrow> cell list" where
  "variables n = List.product (range_list n) (range_list n)"

text \<open>\<open>set(range(1, size + 1))\<close> and \<open>s.discard(v)\<close>.\<close>

definition full_domain :: "int \<Rightarrow> int list" where
  "full_domain n = [1..n]"

definition discard :: "int \<Rightarrow> int list \<Rightarrow> int list" where
  "discard v d = removeAll v d"

section \<open>The board (futoshiki\_board.py)\<close>

subsection \<open>Construction\<close>

fun init_domains :: "pygrid \<Rightarrow> int \<Rightarrow> cell list \<Rightarrow> (cell \<rightharpoonup> int list)
    \<Rightarrow> error + (cell \<rightharpoonup> int list)" where
  "init_domains g n [] ds = Inr ds"
| "init_domains g n (rc # rest) ds =
     (case grid_get g rc of
        Inl e \<Rightarrow> Inl e
      | Inr v \<Rightarrow> init_domains g n rest (ds(rc \<mapsto> (if v = 0 then full_domain n else [v]))))"

text \<open>
  \<open>_enforce_all_different_constraints\<close>: the value of a fixed cell is discarded from
  the domain of every other cell of its row, then of its column.  The lookup is
  \<open>domains.get(cell, set())\<close>, so a missing key is skipped.
\<close>

definition discard_at :: "(cell \<rightharpoonup> int list) \<Rightarrow> int \<Rightarrow> cell \<Rightarrow> (cell \<rightharpoonup> int list)" where
  "discard_at ds v rc =
     (case ds rc of
        None \<Rightarrow> ds
      | Some d \<Rightarrow> if v \<in> set d then ds(rc \<mapsto> discard v d) else ds)"

definition row_others :: "int \<Rightarrow> cell \<Rightarrow> cell list" where
  "row_others n rc = map (\<lambda>col. (fst rc, col)) (filter (\<lambda>col. col \<noteq> snd rc) (range_list n))"

definition col_others :: "int \<Rightarrow> cell \<Rightarrow> cell list" where
  "col_others n rc = map (\<lambda>row. (row, snd rc)) (filter (\<lambda>row. row \<noteq> fst rc) (range_list n))"

definition enforce_all_different_constraints :: "board \<Rightarrow> cell \<Rightarrow> int \<Rightarrow> board" where
  "enforce_all_different_constraints b fixed_var fixed_value =
     b\<lparr>domains :=
         fold (\<lambda>rc ds. discard_at ds fixed_value rc)
           (row_others (board_size b) fixed_var @ col_others (board_size b) fixed_var)
           (domains b)\<rparr>"

fun prune_loop :: "board \<Rightarrow> cell list \<Rightarrow> error + board" where
  "prune_loop b [] = Inr b"
| "prune_loop b (rc # rest) =
     (case grid_get (grid b) rc of
        Inl e \<Rightarrow> Inl e
      | Inr v \<Rightarrow>
          prune_loop (if v \<noteq> 0 then enforce_all_different_constraints b rc v else b) rest)"

definition prune_initial_domains :: "board \<Rightarrow> error + board" where
  "prune_initial_domains b = prune_loop b (variables (board_size b))"

text \<open>
  \<open>FutoshikiBoard(size, initial_grid, inequality_constraints)\<close>.  Both optional
  arguments default to None; an argument that is None or an empty list is replaced
  by the default (an all-zero grid of new rows, no constraints).  A grid that is
  given is stored as it is, with the row objects of the caller.
\<close>

definition initial_grid_or_default :: "int \<Rightarrow> pygrid option \<Rightarrow> pygrid" where
  "initial_grid_or_default n initial_grid =
     (case initial_grid of
        None \<Rightarrow> fresh_grid (replicate (nat n) (replicate (nat n) 0))
      | Some ig \<Rightarrow>
          if rows ig = [] then fresh_grid (replicate (nat n) (replicate (nat n) 0)) else ig)"

definition FutoshikiBoard :: "int \<Rightarrow> pygrid option \<Rightarrow> constraint list option
    \<Rightarrow> error + board" where
  "FutoshikiBoard n initial_grid constraints =
     (let g = initial_grid_or_default n initial_grid
      in case init_domains g n (variables n) Map.empty of
           Inl e \<Rightarrow> Inl e
         | Inr ds \<Rightarrow>
             prune_initial_domains
               \<lparr>board_size = n, grid = g, domains = ds,
                inequality_constraints =
                  (case constraints of None \<Rightarrow> [] | Some cs \<Rightarrow> cs)\<rparr>)"

subsection \<open>Assignment\<close>

definition assign :: "board \<Rightarrow> cell \<Rightarrow> int \<Rightarrow> error + board" where
  "assign b var v =
     (case grid_set (grid b) var v of
        Inl e \<Rightarrow> Inl e
      | Inr g \<Rightarrow> Inr (b\<lparr>grid := g, domains := (domains b)(var \<mapsto> [v])\<rparr>))"

definition unassign :: "board \<Rightarrow> cell \<Rightarrow> error + board" where
  "unassign b var =
     (case grid_set (grid b) var 0 of
        Inl e \<Rightarrow> Inl e
      | Inr g \<Rightarrow> Inr (b\<lparr>grid := g, domains := (domains b)(var \<mapsto> full_domain (board_size b))\<rparr>))"

fun unassigned_loop :: "pygrid \<Rightarrow> cell list \<Rightarrow> error + cell list" where
  "unassigned_loop g [] = Inr []"
| "unassigned_loop g (rc # rest) =
     (case grid_get g rc of
        Inl e \<Rightarrow> Inl e
      | Inr v \<Rightarrow>
          (case unassigned_loop g rest of
             Inl e \<Rightarrow> Inl e
           | Inr us \<Rightarrow> Inr (if v = 0 then rc # us else us)))"

definition get_unassigned_variables :: "board \<Rightarrow> error + cell list" where
  "get_unassigned_variables b = unassigned_loop (grid b) (variables (board_size b))"

subsection \<open>Consistency of a tentative assignment\<close>

text \<open>
  The two all-different loops return False at the first other cell of the row
  (column) that holds the value; a cell outside the grid raises IndexError.
\<close>

fun all_different_loop :: "pygrid \<Rightarrow> int \<Rightarrow> cell list \<Rightarrow> error + bool" where
  "all_different_loop g v [] = Inr True"
| "all_different_loop g v (rc # rest) =
     (case grid_get g rc of
        Inl e \<Rightarrow> Inl e
      | Inr x \<Rightarrow> if x = v then Inr False else all_different_loop g v rest)"

fun inequality_loop :: "pygrid \<Rightarrow> cell \<Rightarrow> int \<Rightarrow> constraint list \<Rightarrow> error + bool" where
  "inequality_loop g var v [] = Inr True"
| "inequality_loop g var v ((a, b, op) # rest) =
     (case grid_get g a of
        Inl e \<Rightarrow> Inl e
      | Inr val1 \<Rightarrow>
          (case grid_get g b of
             Inl e \<Rightarrow> Inl e
           | Inr val2 \<Rightarrow>
               if a = var \<and> val2 \<noteq> 0 then
                 (if op = ''<'' \<and> \<not> v < val2 then Inr False
                  else if op = ''>'' \<and> \<not> v > val2 then Inr False
                  else inequality_loop g var v rest)
               else if b = var \<and> val1 \<noteq> 0 then
                 (if op = ''<'' \<and> \<not> val1 < v then Inr False
                  else if op = ''>'' \<and> \<not> val1 > v then Inr False
                  else inequality_loop g var v rest)
               else if val1 \<noteq> 0 \<and> val2 \<noteq> 0 \<and> (a \<noteq> var \<and> b \<noteq> var) then
                 (if op = ''<'' \<and> \<not> val1 < val2 then Inr False
                  else if op = ''>'' \<and> \<not> val1 > val2 then Inr False
                  else inequality_loop g var v rest)
               else inequality_loop g var v rest))"

definition is_consistent :: "board \<Rightarrow> cell \<Rightarrow> int \<Rightarrow> error + bool" where
  "is_consistent b var v =
     (case all_different_loop (grid b) v (row_others (board_size b) var) of
        Inl e \<Rightarrow> Inl e
      | Inr row_ok \<Rightarrow>
          if \<not> row_ok then Inr False
          else
            (case all_different_loop (grid b) v (col_others (board_size b) var) of
               Inl e \<Rightarrow> Inl e
             | Inr col_ok \<Rightarrow>
                 if \<not> col_ok then Inr False
                 else inequality_loop (grid b) var v (inequality_constraints b)))"

subsection \<open>Neighbours\<close>

text \<open>
  \<open>get_neighbors\<close> collects a set and returns it as a list: a list without
  duplicates, in an order Python does not fix.
\<close>

fun inequality_neighbors :: "cell \<Rightarrow> constraint list \<Rightarrow> cell list" where
  "inequality_neighbors var [] = []"
| "inequality_neighbors var ((a, b, op) # rest) =
     (if a = var then b # inequality_neighbors var rest
      else if b = var then a # inequality_neighbors var rest
      else inequality_neighbors var rest)"

definition get_neighbors :: "board \<Rightarrow> cell \<Rightarrow> cell list" where
  "get_neighbors b var =
     remdups (row_others (board_size b) var @ col_others (board_size b) var
       @ inequality_neighbors var (inequality_constraints b))"

section \<open>Inference (inference.py)\<close>

text \<open>
  The inference functions receive the solver object and use only its board; the
  model passes the board.
\<close>

subsection \<open>Forward checking\<close>

text \<open>
  The body of the loop over the candidate values \<open>val_n\<close> of one neighbour: the
  all-different test, then the first inequality constraint that links the variable
  and the neighbour (the loop over the constraints ends there with \<open>break\<close>).  Each
  step works on the current domain \<open>dn\<close> of the neighbour.
\<close>

fun fc_inequality :: "cell \<Rightarrow> int \<Rightarrow> cell \<Rightarrow> int \<Rightarrow> constraint list \<Rightarrow> int list \<Rightarrow> int list" where
  "fc_inequality var v nb val_n [] dn = dn"
| "fc_inequality var v nb val_n ((v1, v2, op) # rest) dn =
     (if (v1 = var \<and> v2 = nb) \<or> (v2 = var \<and> v1 = nb) then
        (if v1 = var \<and> v2 = nb then
           (if op = ''<'' \<and> \<not> v < val_n then discard val_n dn
            else if op = ''>'' \<and> \<not> v > val_n then discard val_n dn
            else dn)
         else
           (if op = ''<'' \<and> \<not> val_n < v then discard val_n dn
            else if op = ''>'' \<and> \<not> val_n > v then discard val_n dn
            else dn))
      else fc_inequality var v nb val_n rest dn)"

definition fc_value :: "constraint list \<Rightarrow> cell \<Rightarrow> int \<Rightarrow> cell \<Rightarrow> int \<Rightarrow> int list \<Rightarrow> int list" where
  "fc_value cs var v nb val_n dn =
     fc_inequality var v nb val_n cs
       (if val_n = v \<and> (fst var = fst nb \<or> snd var = snd nb) then discard val_n dn else dn)"

text \<open>\<open>s.update(t)\<close> on sets, and the restoring loop over \<open>pruned_values.items()\<close>.\<close>

definition set_update :: "int list \<Rightarrow> int list \<Rightarrow> int list" where
  "set_update d p = d @ filter (\<lambda>x. x \<notin> set d) (remdups p)"

fun restore_pruned :: "(cell \<rightharpoonup> int list) \<Rightarrow> (cell \<times> int list) list
    \<Rightarrow> error + (cell \<rightharpoonup> int list)" where
  "restore_pruned ds [] = Inr ds"
| "restore_pruned ds ((p_var, p_vals) # rest) =
     (case ds p_var of
        None \<Rightarrow> Inl KeyError
      | Some d \<Rightarrow> restore_pruned (ds(p_var \<mapsto> set_update d p_vals)) rest)"

text \<open>
  The loop over the neighbours.  \<open>pruned\<close> is the dictionary \<open>pruned_values\<close> (an
  association list in insertion order).  The result None is Python's False, the
  result Some is the dictionary returned on success.
\<close>

fun fc_loop :: "board \<Rightarrow> cell \<Rightarrow> int \<Rightarrow> int list \<Rightarrow> cell list \<Rightarrow> (cell \<times> int list) list
    \<Rightarrow> error + ((cell \<times> int list) list option \<times> board)" where
  "fc_loop b var v original_domain [] pruned =
     Inr (Some pruned, b\<lparr>domains := (domains b)(var \<mapsto> original_domain)\<rparr>)"
| "fc_loop b var v original_domain (nb # rest) pruned =
     (case grid_get (grid b) nb of
        Inl e \<Rightarrow> Inl e
      | Inr gv \<Rightarrow>
          if gv = 0 then
            (case domains b nb of
               None \<Rightarrow> Inl KeyError
             | Some original_neighbor_domain \<Rightarrow>
                 (let dn = fold (fc_value (inequality_constraints b) var v nb)
                             original_neighbor_domain original_neighbor_domain;
                      ds = (domains b)(nb \<mapsto> dn)
                  in if dn = [] then
                       (case restore_pruned (ds(var \<mapsto> original_domain)) pruned of
                          Inl e \<Rightarrow> Inl e
                        | Inr ds' \<Rightarrow> Inr (None, b\<lparr>domains := ds'\<rparr>))
                     else
                       fc_loop (b\<lparr>domains := ds\<rparr>) var v original_domain rest
                         (AList.update nb
                            (filter (\<lambda>x. x \<notin> set dn) original_neighbor_domain) pruned)))
          else fc_loop b var v original_domain rest pruned)"

definition forward_check :: "board \<Rightarrow> cell \<Rightarrow> int
    \<Rightarrow> error + ((cell \<times> int list) list option \<times> board)" where
  "forward_check b var v =
     (case domains b var of
        None \<Rightarrow> Inl KeyError
      | Some original_domain \<Rightarrow>
          fc_loop (b\<lparr>domains := (domains b)(var \<mapsto> [v])\<rparr>) var v original_domain
            (get_neighbors b var) [])"

subsection \<open>Arc consistency\<close>

text \<open>
  The loop over the constraints inside \<open>revise\<close>, for one pair of values: it returns
  the flags (\<open>is_inequality\<close>, \<open>consistent_found\<close>) and stops at the first constraint
  between the two cells that the pair satisfies.
\<close>

fun revise_inequality :: "cell \<Rightarrow> cell \<Rightarrow> int \<Rightarrow> int \<Rightarrow> constraint list \<Rightarrow> bool \<Rightarrow> bool \<times> bool" where
  "revise_inequality xi xj x y [] is_inequality = (is_inequality, False)"
| "revise_inequality xi xj x y ((v1, v2, op) # rest) is_inequality =
     (if v1 = xi \<and> v2 = xj then
        (if op = ''<'' \<and> x < y then (True, True)
         else if op = ''>'' \<and> x > y then (True, True)
         else revise_inequality xi xj x y rest True)
      else if v1 = xj \<and> v2 = xi then
        (if op = ''<'' \<and> y < x then (True, True)
         else if op = ''>'' \<and> y > x then (True, True)
         else revise_inequality xi xj x y rest True)
      else revise_inequality xi xj x y rest is_inequality)"

text \<open>
  The loop over the values \<open>y\<close> of the domain of \<open>xj\<close>, for one value \<open>x\<close>: the result
  is \<open>consistent_found\<close> when the loop ends.  Whenever the source sets
  \<open>consistent_found\<close> it leaves the loop in the same iteration, so the flag is False
  at the start of every iteration.
\<close>

fun revise_support :: "constraint list \<Rightarrow> cell \<Rightarrow> cell \<Rightarrow> int \<Rightarrow> int list \<Rightarrow> bool" where
  "revise_support cs xi xj x [] = False"
| "revise_support cs xi xj x (y # ys) =
     (if (fst xi = fst xj \<or> snd xi = snd xj) \<and> x = y then revise_support cs xi xj x ys
      else
        (let (is_inequality, found) = revise_inequality xi xj x y cs False;
             consistent_found =
               (if \<not> is_inequality \<and> (fst xi \<noteq> fst xj \<and> snd xi \<noteq> snd xj) then True else found)
         in if is_inequality \<and> consistent_found then True
            else if \<not> is_inequality \<and> (fst xi = fst xj \<or> snd xi = snd xj) then
              (if x \<noteq> y then True else revise_support cs xi xj x ys)
            else if \<not> is_inequality \<and> \<not> (fst xi = fst xj \<or> snd xi = snd xj) then True
            else revise_support cs xi xj x ys))"

text \<open>
  \<open>revise\<close>: the domain of \<open>xj\<close> is looked up once per value of the domain of \<open>xi\<close>,
  so a missing key \<open>xj\<close> raises only when the domain of \<open>xi\<close> is not empty.
\<close>

definition revise :: "board \<Rightarrow> cell \<Rightarrow> cell \<Rightarrow> error + (bool \<times> board)" where
  "revise b xi xj =
     (case domains b xi of
        None \<Rightarrow> Inl KeyError
      | Some di \<Rightarrow>
          if di = [] then Inr (False, b)
          else
            (case domains b xj of
               None \<Rightarrow> Inl KeyError
             | Some dj \<Rightarrow>
                 (let to_remove =
                        filter (\<lambda>x. \<not> revise_support (inequality_constraints b) xi xj x dj) di
                  in if to_remove \<noteq> [] then
                       Inr (True,
                         b\<lparr>domains := (domains b)(xi \<mapsto> filter (\<lambda>x. x \<notin> set to_remove) di)\<rparr>)
                     else Inr (False, b))))"

text \<open>The initial queue: both directions of every constrained pair of cells.\<close>

fun pairs_after :: "'a list \<Rightarrow> ('a \<times> 'a) list" where
  "pairs_after [] = []"
| "pairs_after (x # xs) = map (Pair x) xs @ pairs_after xs"

definition is_constrained :: "constraint list \<Rightarrow> cell \<Rightarrow> cell \<Rightarrow> bool" where
  "is_constrained cs xi xj =
     ((fst xi = fst xj \<or> snd xi = snd xj)
      \<or> list_ex (\<lambda>(v1, v2, op). (v1 = xi \<and> v2 = xj) \<or> (v1 = xj \<and> v2 = xi)) cs)"

definition initial_queue :: "board \<Rightarrow> (cell \<times> cell) list" where
  "initial_queue b =
     concat (map (\<lambda>(xi, xj).
                if is_constrained (inequality_constraints b) xi xj then [(xi, xj), (xj, xi)]
                else [])
       (pairs_after (variables (board_size b))))"

lemma revise_frame:
  assumes "revise b xi xj = Inr (changed, b')"
  shows "board_size b' = board_size b" "grid b' = grid b"
    "inequality_constraints b' = inequality_constraints b"
  using assms by (auto simp: revise_def Let_def split: option.splits if_splits)

lemma revise_unchanged: "revise b xi xj = Inr (False, b') \<Longrightarrow> b' = b"
  by (auto simp: revise_def Let_def split: option.splits if_splits)

lemma revise_changed:
  assumes "revise b xi xj = Inr (True, b')"
  shows "\<exists>di di'. domains b xi = Some di \<and> domains b' = (domains b)(xi \<mapsto> di')
           \<and> length di' < length di \<and> set di' \<subseteq> set di"
proof -
  from assms obtain di dj where di: "domains b xi = Some di" and dj: "domains b xj = Some dj"
    and ne: "filter (\<lambda>x. \<not> revise_support (inequality_constraints b) xi xj x dj) di \<noteq> []"
    and b': "b' = b\<lparr>domains := (domains b)(xi \<mapsto> filter (\<lambda>x. x \<notin> set (filter (\<lambda>x. \<not> revise_support (inequality_constraints b) xi xj x dj) di)) di)\<rparr>"
    by (auto simp: revise_def Let_def split: option.splits if_splits)
  from ne obtain x where x: "x \<in> set di" "\<not> revise_support (inequality_constraints b) xi xj x dj"
    by (auto simp: filter_empty_conv)
  have "length (filter (\<lambda>x. x \<notin> set (filter (\<lambda>x. \<not> revise_support (inequality_constraints b) xi xj x dj) di)) di) < length di"
    by (rule length_filter_less[of x]) (use x in auto)
  with di b' show ?thesis by auto
qed

text \<open>
  The weight that decreases whenever a revision removes a value: the sizes of the
  domains, summed over the finitely many cells an arc of the queue can ever name
  (their coordinates are those of the board, of the queue and of the constraints).
\<close>

definition constraint_cells :: "constraint list \<Rightarrow> cell set" where
  "constraint_cells cs = (fst ` set cs) \<union> ((fst \<circ> snd) ` set cs)"

definition ac2_coords :: "board \<Rightarrow> (cell \<times> cell) list \<Rightarrow> int set" where
  "ac2_coords b q =
     set (range_list (board_size b))
     \<union> fst ` (fst ` set q \<union> constraint_cells (inequality_constraints b))
     \<union> snd ` (fst ` set q \<union> constraint_cells (inequality_constraints b))"

definition ac2_cells :: "board \<Rightarrow> (cell \<times> cell) list \<Rightarrow> cell set" where
  "ac2_cells b q = ac2_coords b q \<times> ac2_coords b q"

definition domain_size :: "board \<Rightarrow> cell \<Rightarrow> nat" where
  "domain_size b c = (case domains b c of None \<Rightarrow> 0 | Some d \<Rightarrow> length d)"

definition ac2_weight :: "board \<Rightarrow> (cell \<times> cell) list \<Rightarrow> nat" where
  "ac2_weight b q = (\<Sum>c \<in> ac2_cells b q. domain_size b c)"

lemma finite_ac2_cells: "finite (ac2_cells b q)"
  by (simp add: ac2_cells_def ac2_coords_def constraint_cells_def)

lemma inequality_neighbors_coords:
  "x \<in> set (inequality_neighbors var cs) \<Longrightarrow>
     \<exists>a c op. (a, c, op) \<in> set cs \<and> ((a = var \<and> x = c) \<or> (c = var \<and> x = a))"
proof (induction cs)
  case Nil
  then show ?case by simp
next
  case (Cons t cs)
  obtain a c op where t: "t = (a, c, op)" by (cases t) auto
  from Cons.prems consider "a = var" "x = c" | "c = var" "x = a"
    | "x \<in> set (inequality_neighbors var cs)"
    unfolding t by (simp split: if_splits) blast+
  then show ?case
  proof cases
    case 1 then show ?thesis unfolding t by (intro exI[of _ a] exI[of _ c] exI[of _ op]) simp
  next
    case 2 then show ?thesis unfolding t by (intro exI[of _ a] exI[of _ c] exI[of _ op]) simp
  next
    case 3
    from Cons.IH[OF 3] obtain a' c' op' where "(a', c', op') \<in> set cs"
      "(a' = var \<and> x = c') \<or> (c' = var \<and> x = a')" by blast
    then show ?thesis by (intro exI[of _ a'] exI[of _ c'] exI[of _ op']) simp
  qed
qed

lemma in_inequality_neighbors:
  "(a, c, op) \<in> set cs \<Longrightarrow> a = var \<Longrightarrow> c \<in> set (inequality_neighbors var cs)"
  "(a, c, op) \<in> set cs \<Longrightarrow> c = var \<Longrightarrow> a \<in> set (inequality_neighbors var cs)"
  by (induction var cs rule: inequality_neighbors.induct) (simp_all, blast+)


lemma coords_range: "r \<in> set (range_list (board_size b)) \<Longrightarrow> r \<in> ac2_coords b q"
  by (simp add: ac2_coords_def)

lemma coords_queue:
  assumes "arc \<in> set q"
  shows "fst (fst arc) \<in> ac2_coords b q" "snd (fst arc) \<in> ac2_coords b q"
  using assms by (auto simp: ac2_coords_def image_Un)

lemma coords_constraint:
  assumes "x \<in> constraint_cells (inequality_constraints b)"
  shows "fst x \<in> ac2_coords b q" "snd x \<in> ac2_coords b q"
  using assms by (simp_all add: ac2_coords_def image_Un)

lemma coords_cases:
  assumes "r \<in> ac2_coords b q"
  obtains "r \<in> set (range_list (board_size b))"
  | arc where "arc \<in> set q" "r = fst (fst arc) \<or> r = snd (fst arc)"
  | x where "x \<in> constraint_cells (inequality_constraints b)" "r = fst x \<or> r = snd x"
  using assms unfolding ac2_coords_def image_Un by blast

lemma in_ac2_cells: "x \<in> ac2_cells b q \<longleftrightarrow> fst x \<in> ac2_coords b q \<and> snd x \<in> ac2_coords b q"
  by (cases x) (simp add: ac2_cells_def)

lemma neighbors_in_cells:
  assumes "xi \<in> ac2_cells b q" "xk \<in> set (get_neighbors b xi)"
  shows "xk \<in> ac2_cells b q"
proof -
  from assms(2) consider "xk \<in> set (row_others (board_size b) xi)"
    | "xk \<in> set (col_others (board_size b) xi)"
    | "xk \<in> set (inequality_neighbors xi (inequality_constraints b))"
    by (auto simp: get_neighbors_def)
  then show ?thesis
  proof cases
    case 1
    then have "fst xk = fst xi" "snd xk \<in> set (range_list (board_size b))"
      by (auto simp: row_others_def)
    then show ?thesis using assms(1) coords_range by (simp add: in_ac2_cells)
  next
    case 2
    then have "snd xk = snd xi" "fst xk \<in> set (range_list (board_size b))"
      by (auto simp: col_others_def)
    then show ?thesis using assms(1) coords_range by (simp add: in_ac2_cells)
  next
    case 3
    then obtain a c op where "(a, c, op) \<in> set (inequality_constraints b)" "xk = a \<or> xk = c"
      using inequality_neighbors_coords by blast
    then have "xk \<in> constraint_cells (inequality_constraints b)"
      by (force simp: constraint_cells_def)
    then show ?thesis using coords_constraint by (simp add: in_ac2_cells)
  qed
qed

lemma queue_head_in_cells: "xi \<in> ac2_cells b ((xi, xj) # q)"
  using coords_queue[of "(xi, xj)" "(xi, xj) # q" b] by (simp add: in_ac2_cells)

lemma queue_tail_in_cells: "fst ` set q \<subseteq> ac2_cells b (arc # q)"
proof
  fix x assume "x \<in> fst ` set q"
  then obtain a where "a \<in> set (arc # q)" "x = fst a" by auto
  then show "x \<in> ac2_cells b (arc # q)"
    using coords_queue[of a "arc # q" b] by (simp add: in_ac2_cells)
qed

lemma ac2_coords_mono:
  assumes "fst ` set q' \<subseteq> ac2_cells b q"
    and "board_size b' = board_size b"
    and "inequality_constraints b' = inequality_constraints b"
  shows "ac2_coords b' q' \<subseteq> ac2_coords b q"
proof
  fix r assume "r \<in> ac2_coords b' q'"
  then show "r \<in> ac2_coords b q"
  proof (cases rule: coords_cases)
    case 1
    then show ?thesis using coords_range assms(2) by simp
  next
    case (2 arc)
    then have "fst arc \<in> ac2_cells b q" using assms(1) by blast
    then show ?thesis using 2(2) by (auto simp: in_ac2_cells)
  next
    case (3 x)
    then show ?thesis using coords_constraint[of x b q] assms(3) by auto
  qed
qed

lemma ac2_cells_mono:
  assumes "fst ` set q' \<subseteq> ac2_cells b q"
    and "board_size b' = board_size b"
    and "inequality_constraints b' = inequality_constraints b"
  shows "ac2_cells b' q' \<subseteq> ac2_cells b q"
  using ac2_coords_mono[OF assms] unfolding ac2_cells_def by blast

lemma ac2_weight_tail: "ac2_weight b q \<le> ac2_weight b (arc # q)"
  unfolding ac2_weight_def
  by (rule sum_mono2[OF finite_ac2_cells ac2_cells_mono[OF queue_tail_in_cells]]) simp_all

lemma ac2_weight_revised:
  assumes rv: "revise b xi xj = Inr (True, b')"
    and q': "fst ` set q' \<subseteq> ac2_cells b ((xi, xj) # q)"
  shows "ac2_weight b' q' < ac2_weight b ((xi, xj) # q)"
proof -
  let ?S = "ac2_cells b ((xi, xj) # q)"
  from revise_changed[OF rv] obtain di di' where di: "domains b xi = Some di"
    and b': "domains b' = (domains b)(xi \<mapsto> di')" and less: "length di' < length di"
    by blast
  have sub: "ac2_cells b' q' \<subseteq> ?S"
    using ac2_cells_mono[OF q'] revise_frame[OF rv] by simp
  have "ac2_weight b' q' \<le> (\<Sum>c \<in> ?S. domain_size b' c)"
    unfolding ac2_weight_def by (rule sum_mono2[OF finite_ac2_cells sub]) simp
  also have "\<dots> < (\<Sum>c \<in> ?S. domain_size b c)"
  proof (rule sum_strict_mono_ex1[OF finite_ac2_cells])
    show "\<forall>c\<in>?S. domain_size b' c \<le> domain_size b c"
      using di b' less by (auto simp: domain_size_def)
    show "\<exists>c\<in>?S. domain_size b' c < domain_size b c"
      using di b' less queue_head_in_cells[of xi b xj q]
      by (intro bexI[of _ xi]) (auto simp: domain_size_def)
  qed
  finally show ?thesis unfolding ac2_weight_def .
qed

text \<open>
  One iteration of the \<open>while queue\<close> loop of \<open>ac2\<close> on the popped arc and the rest
  of the queue: either the function returns (Inl, with its result or error), or the
  loop goes on with the revised board and the extended queue (Inr).  The queue is
  popped at the front and extended at the back.
\<close>

definition ac2_step :: "board \<Rightarrow> cell \<times> cell \<Rightarrow> (cell \<times> cell) list
    \<Rightarrow> (error + (bool \<times> board)) + (board \<times> (cell \<times> cell) list)" where
  "ac2_step b arc queue =
     (case arc of (xi, xj) \<Rightarrow>
        (case revise b xi xj of
           Inl e \<Rightarrow> Inl (Inl e)
         | Inr (revised, b') \<Rightarrow>
             if revised then
               (case domains b' xi of
                  None \<Rightarrow> Inl (Inl KeyError)
                | Some d \<Rightarrow>
                    if d = [] then Inl (Inr (False, b'))
                    else Inr (b', queue @ map (\<lambda>xk. (xk, xi))
                                          (filter (\<lambda>xk. xk \<noteq> xj) (get_neighbors b' xi))))
             else Inr (b', queue)))"

lemma ac2_step_decreases:
  assumes "ac2_step b arc queue = Inr (b', q')"
  shows "((b', q'), (b, arc # queue))
           \<in> measures [\<lambda>(b, q). ac2_weight b q, \<lambda>(b, q). length q]"
proof -
  obtain xi xj where arc: "arc = (xi, xj)" by (cases arc) auto
  from assms obtain revised where rv: "revise b xi xj = Inr (revised, b')"
    unfolding ac2_step_def arc
    by (simp split: sum.splits prod.splits if_splits option.splits)
  show ?thesis
  proof (cases revised)
    case True
    with rv have rv': "revise b xi xj = Inr (True, b')" by simp
    have nb: "get_neighbors b' xi = get_neighbors b xi"
      using revise_frame[OF rv'] by (simp add: get_neighbors_def)
    from assms rv' have q': "q' = queue @ map (\<lambda>xk. (xk, xi))
        (filter (\<lambda>xk. xk \<noteq> xj) (get_neighbors b xi))"
      unfolding ac2_step_def arc by (auto simp: nb split: option.splits if_splits)
    have "fst ` set queue \<subseteq> ac2_cells b ((xi, xj) # queue)"
      by (rule queue_tail_in_cells)
    moreover have "set (get_neighbors b xi) \<subseteq> ac2_cells b ((xi, xj) # queue)"
      using neighbors_in_cells[OF queue_head_in_cells] by blast
    ultimately have "fst ` set q' \<subseteq> ac2_cells b ((xi, xj) # queue)"
      unfolding q' by (auto simp: image_Un image_image)
    from ac2_weight_revised[OF rv' this] show ?thesis by (simp add: arc)
  next
    case False
    with rv have "b' = b" by (simp add: revise_unchanged)
    moreover from assms rv False have "q' = queue" by (simp add: ac2_step_def arc)
    ultimately show ?thesis using ac2_weight_tail[of b queue arc] by auto
  qed
qed

function ac2_loop :: "board \<Rightarrow> (cell \<times> cell) list \<Rightarrow> error + (bool \<times> board)" where
  "ac2_loop b [] = Inr (True, b)"
| "ac2_loop b (arc # queue) =
     (case ac2_step b arc queue of
        Inl result \<Rightarrow> result
      | Inr (b', queue') \<Rightarrow> ac2_loop b' queue')"
  by pat_completeness auto

termination ac2_loop
proof (relation "measures [\<lambda>(b, q). ac2_weight b q, \<lambda>(b, q). length q]", goal_cases)
  case 1
  show ?case by simp
next
  case (2 b arc queue st b' q')
  then have "ac2_step b arc queue = Inr (b', q')" by simp
  then show ?case by (rule ac2_step_decreases)
qed

definition ac2 :: "board \<Rightarrow> error + (bool \<times> board)" where
  "ac2 b = ac2_loop b (initial_queue b)"

text \<open>
  The same loop with a budget of iterations: None when the budget is used up before
  the loop ends.
\<close>

fun ac2_bounded :: "nat \<Rightarrow> board \<Rightarrow> (cell \<times> cell) list \<Rightarrow> (error + (bool \<times> board)) option" where
  "ac2_bounded 0 b queue = None"
| "ac2_bounded (Suc n) b [] = Some (Inr (True, b))"
| "ac2_bounded (Suc n) b (arc # queue) =
     (case ac2_step b arc queue of
        Inl result \<Rightarrow> Some result
      | Inr (b', queue') \<Rightarrow> ac2_bounded n b' queue')"

section \<open>Heuristics (heuristics.py)\<close>

subsection \<open>Minimum remaining values\<close>

text \<open>
  \<open>min_size\<close> starts at infinity (None) and \<open>best\<close> at None; a strictly smaller
  domain replaces the best variable, so the first of several smallest wins.
\<close>

fun mrv_loop :: "board \<Rightarrow> cell list \<Rightarrow> nat option \<Rightarrow> cell option \<Rightarrow> error + cell option" where
  "mrv_loop b [] min_size best = Inr best"
| "mrv_loop b (var # rest) min_size best =
     (case domains b var of
        None \<Rightarrow> Inl KeyError
      | Some d \<Rightarrow>
          if (case min_size of None \<Rightarrow> True | Some m \<Rightarrow> length d < m)
          then mrv_loop b rest (Some (length d)) (Some var)
          else mrv_loop b rest min_size best)"

definition select_unassigned_variable_mrv :: "board \<Rightarrow> error + cell option" where
  "select_unassigned_variable_mrv b =
     (case get_unassigned_variables b of
        Inl e \<Rightarrow> Inl e
      | Inr unassigned_vars \<Rightarrow>
          if unassigned_vars = [] then Inr None
          else mrv_loop b unassigned_vars None None)"

subsection \<open>Least constraining value\<close>

text \<open>
  The penalty of one neighbour from the inequality constraints: every constraint
  that links the variable and the neighbour adds 100 when the filtered copy of the
  neighbour's domain is empty.
\<close>

fun lcv_inequality :: "cell \<Rightarrow> int \<Rightarrow> cell \<Rightarrow> int list \<Rightarrow> constraint list \<Rightarrow> int" where
  "lcv_inequality var v nb dn [] = 0"
| "lcv_inequality var v nb dn ((v1, v2, op) # rest) =
     (if (v1 = var \<and> v2 = nb) \<or> (v2 = var \<and> v1 = nb) then
        (let temp_neighbor_domain =
               (if v1 = var \<and> v2 = nb then
                  (if op = ''<'' then filter (\<lambda>x. x > v) dn
                   else if op = ''>'' then filter (\<lambda>x. x < v) dn
                   else dn)
                else
                  (if op = ''<'' then filter (\<lambda>x. x < v) dn
                   else if op = ''>'' then filter (\<lambda>x. x > v) dn
                   else dn))
         in if temp_neighbor_domain = [] then 100 else 0)
      else 0)
     + lcv_inequality var v nb dn rest"

fun lcv_neighbors :: "board \<Rightarrow> cell \<Rightarrow> int \<Rightarrow> cell list \<Rightarrow> error + int" where
  "lcv_neighbors b var v [] = Inr 0"
| "lcv_neighbors b var v (nb # rest) =
     (case grid_get (grid b) nb of
        Inl e \<Rightarrow> Inl e
      | Inr gv \<Rightarrow>
          if gv = 0 then
            (case domains b nb of
               None \<Rightarrow> Inl KeyError
             | Some dn \<Rightarrow>
                 (case lcv_neighbors b var v rest of
                    Inl e \<Rightarrow> Inl e
                  | Inr n \<Rightarrow>
                      Inr ((if v \<in> set dn \<and> length dn = 1 then 100 else 0)
                           + lcv_inequality var v nb dn (inequality_constraints b) + n)))
          else lcv_neighbors b var v rest)"

text \<open>
  The loop over the candidate values: assign, count, record the pair, unassign.
\<close>

fun lcv_loop :: "board \<Rightarrow> cell \<Rightarrow> int list \<Rightarrow> error + ((int \<times> int) list \<times> board)" where
  "lcv_loop b var [] = Inr ([], b)"
| "lcv_loop b var (v # rest) =
     (case assign b var v of
        Inl e \<Rightarrow> Inl e
      | Inr b1 \<Rightarrow>
          (case lcv_neighbors b1 var v (get_neighbors b1 var) of
             Inl e \<Rightarrow> Inl e
           | Inr constraining_count \<Rightarrow>
               (case unassign b1 var of
                  Inl e \<Rightarrow> Inl e
                | Inr b2 \<Rightarrow>
                    (case lcv_loop b2 var rest of
                       Inl e \<Rightarrow> Inl e
                     | Inr (counts, b3) \<Rightarrow> Inr ((v, constraining_count) # counts, b3)))))"

definition order_domain_values_lcv :: "cell \<Rightarrow> board \<Rightarrow> error + (int list \<times> board)" where
  "order_domain_values_lcv var b =
     (case domains b var of
        None \<Rightarrow> Inl KeyError
      | Some d \<Rightarrow>
          (case lcv_loop b var d of
             Inl e \<Rightarrow> Inl e
           | Inr (value_constraint_counts, b') \<Rightarrow>
               Inr (map fst (sort_key snd value_constraint_counts), b')))"

section \<open>The solver (csp\_solver.py)\<close>

record csp =
  board :: board
  use_forward_checking :: bool
  use_ac2 :: bool
  use_mrv :: bool
  use_lcv :: bool
  backtracks :: nat

definition CSPSolver :: "board \<Rightarrow> bool \<Rightarrow> bool \<Rightarrow> bool \<Rightarrow> bool \<Rightarrow> csp" where
  "CSPSolver b fc ac mrv lcv =
     \<lparr>board = b, use_forward_checking = fc, use_ac2 = ac, use_mrv = mrv, use_lcv = lcv,
      backtracks = 0\<rparr>"

text \<open>
  The inference after a consistent tentative assignment: forward checking when
  enabled, then arc consistency when enabled and forward checking has not failed.
\<close>

definition infer :: "csp \<Rightarrow> board \<Rightarrow> cell \<Rightarrow> int \<Rightarrow> error + (bool \<times> board)" where
  "infer s b var v =
     (case (if use_forward_checking s then
              (case forward_check b var v of
                 Inl e \<Rightarrow> Inl e
               | Inr (fc_result, b1) \<Rightarrow> Inr (fc_result \<noteq> None, b1))
            else Inr (True, b)) of
        Inl e \<Rightarrow> Inl e
      | Inr (is_consistent_after_inference, b1) \<Rightarrow>
          if is_consistent_after_inference \<and> use_ac2 s then ac2 b1
          else Inr (is_consistent_after_inference, b1))"

text \<open>The last three statements of the loop body: count, unassign, restore the snapshot.\<close>

definition backtrack :: "csp \<Rightarrow> cell \<Rightarrow> (cell \<rightharpoonup> int list) \<Rightarrow> error + csp" where
  "backtrack s var original_domains_copy =
     (case unassign (board s) var of
        Inl e \<Rightarrow> Inl e
      | Inr b \<Rightarrow>
          Inr (s\<lparr>board := b\<lparr>domains := original_domains_copy\<rparr>,
                 backtracks := backtracks s + 1\<rparr>))"

text \<open>
  Variable selection and value ordering, the first two steps of a search frame:
  the MRV variable or the first unassigned cell, and the LCV order or the domain's
  own order.  A variable None (which MRV returns only for an empty list) would be
  used as a dictionary key and raise KeyError.
\<close>

definition select_variable :: "csp \<Rightarrow> cell list \<Rightarrow> error + cell" where
  "select_variable s unassigned =
     (case (if use_mrv s then select_unassigned_variable_mrv (board s)
            else Inr (Some (hd unassigned))) of
        Inl e \<Rightarrow> Inl e
      | Inr None \<Rightarrow> Inl KeyError
      | Inr (Some var) \<Rightarrow> Inr var)"

definition candidate_values :: "csp \<Rightarrow> cell \<Rightarrow> error + (int list \<times> board)" where
  "candidate_values s var =
     (if use_lcv s then order_domain_values_lcv var (board s)
      else (case domains (board s) var of
              None \<Rightarrow> Inl KeyError
            | Some d \<Rightarrow> Inr (d, board s)))"

text \<open>
  The recursive search.  The first argument is the number of nested calls of
  \<open>_backtracking_search\<close> that Python's recursion limit still allows; a call beyond
  it raises RecursionError.  \<open>try_values\<close> is the loop over the ordered values.
\<close>

fun backtracking_search :: "nat \<Rightarrow> csp \<Rightarrow> error + (bool \<times> csp)"
  and try_values :: "nat \<Rightarrow> csp \<Rightarrow> cell \<Rightarrow> int list \<Rightarrow> error + (bool \<times> csp)" where
  "backtracking_search 0 s = Inl RecursionError"
| "backtracking_search (Suc depth) s =
     (case get_unassigned_variables (board s) of
        Inl e \<Rightarrow> Inl e
      | Inr unassigned \<Rightarrow>
          if unassigned = [] then Inr (True, s)
          else
            (case select_variable s unassigned of
               Inl e \<Rightarrow> Inl e
             | Inr var \<Rightarrow>
                 (case candidate_values s var of
                    Inl e \<Rightarrow> Inl e
                  | Inr (domain_values, b1) \<Rightarrow>
                      try_values depth (s\<lparr>board := b1\<rparr>) var domain_values)))"
| "try_values depth s var [] = Inr (False, s)"
| "try_values depth s var (v # rest) =
     (let original_domains_copy = domains (board s) in
      case assign (board s) var v of
        Inl e \<Rightarrow> Inl e
      | Inr b1 \<Rightarrow>
          (case is_consistent b1 var v of
             Inl e \<Rightarrow> Inl e
           | Inr consistent \<Rightarrow>
               if consistent then
                 (case infer s b1 var v of
                    Inl e \<Rightarrow> Inl e
                  | Inr (is_consistent_after_inference, b2) \<Rightarrow>
                      if is_consistent_after_inference then
                        (case backtracking_search depth (s\<lparr>board := b2\<rparr>) of
                           Inl e \<Rightarrow> Inl e
                         | Inr (found, s') \<Rightarrow>
                             if found then Inr (True, s')
                             else
                               (case backtrack s' var original_domains_copy of
                                  Inl e \<Rightarrow> Inl e
                                | Inr s'' \<Rightarrow> try_values depth s'' var rest))
                      else
                        (case backtrack (s\<lparr>board := b2\<rparr>) var original_domains_copy of
                           Inl e \<Rightarrow> Inl e
                         | Inr s'' \<Rightarrow> try_values depth s'' var rest))
               else
                 (case backtrack (s\<lparr>board := b1\<rparr>) var original_domains_copy of
                    Inl e \<Rightarrow> Inl e
                  | Inr s'' \<Rightarrow> try_values depth s'' var rest)))"

definition solve :: "nat \<Rightarrow> csp \<Rightarrow> error + (bool \<times> csp)" where
  "solve depth s =
     (let s0 = s\<lparr>backtracks := 0\<rparr> in
      if use_ac2 s0 then
        (case ac2 (board s0) of
           Inl e \<Rightarrow> Inl e
         | Inr (consistent, b) \<Rightarrow>
             if \<not> consistent then Inr (False, s0\<lparr>board := b\<rparr>)
             else backtracking_search depth (s0\<lparr>board := b\<rparr>))
      else backtracking_search depth s0)"

section \<open>Concrete boards used as examples\<close>

text \<open>
  The board built from the 2x2 clue grid [[0,0],[0,1]] without constraints, as the
  constructor leaves it: the clue 1 is pruned from the domains of (0,1) and (1,0).
\<close>

definition clue_board :: board where
  "clue_board =
     \<lparr>board_size = 2, grid = fresh_grid [[0, 0], [0, 1]],
      domains = [(0, 0) \<mapsto> [1, 2], (0, 1) \<mapsto> [2], (1, 0) \<mapsto> [2], (1, 1) \<mapsto> [1]],
      inequality_constraints = []\<rparr>"

section \<open>Reading and writing the grid\<close>

lemma py_index_nonneg: "0 \<le> i \<Longrightarrow> i < int n \<Longrightarrow> py_index n i = Some (nat i)"
  by (simp add: py_index_def)

lemma py_index_bound: "py_index n i = Some k \<Longrightarrow> k < n"
  by (auto simp: py_index_def split: if_splits)

lemma grid_get_in_range:
  assumes "0 \<le> fst rc" "fst rc < int (length (rows g))" "0 \<le> snd rc"
    "snd rc < int (length (store g (rows g ! nat (fst rc))))"
  shows "grid_get g rc = Inr (store g (rows g ! nat (fst rc)) ! nat (snd rc))"
  using assms by (simp add: grid_get_def py_index_nonneg)

lemma grid_set_in_range:
  assumes "0 \<le> fst rc" "fst rc < int (length (rows g))" "0 \<le> snd rc"
    "snd rc < int (length (store g (rows g ! nat (fst rc))))"
  shows "grid_set g rc v =
     Inr (g\<lparr>store := (store g)(rows g ! nat (fst rc) :=
            (store g (rows g ! nat (fst rc)))[nat (snd rc) := v])\<rparr>)"
  using assms by (simp add: grid_set_def py_index_nonneg)

lemma grid_set_cases:
  assumes "grid_set g rc v = Inr g1"
  obtains i j where "py_index (length (rows g)) (fst rc) = Some i"
    "py_index (length (store g (rows g ! i))) (snd rc) = Some j"
    "i < length (rows g)" "j < length (store g (rows g ! i))"
    "g1 = g\<lparr>store := (store g)(rows g ! i := (store g (rows g ! i))[j := v])\<rparr>"
  using assms by (auto simp: grid_set_def split: option.splits dest: py_index_bound)

lemma grid_set_rows: "grid_set g rc v = Inr g1 \<Longrightarrow> rows g1 = rows g"
  by (erule grid_set_cases) simp

lemma grid_set_twice:
  assumes "grid_set g rc v = Inr g1"
  shows "\<exists>i j. py_index (length (rows g)) (fst rc) = Some i
    \<and> py_index (length (store g (rows g ! i))) (snd rc) = Some j
    \<and> grid_set g1 rc w =
        Inr (g\<lparr>store := (store g)(rows g ! i := (store g (rows g ! i))[j := w])\<rparr>)"
proof -
  from assms obtain i j where ij: "py_index (length (rows g)) (fst rc) = Some i"
    "py_index (length (store g (rows g ! i))) (snd rc) = Some j"
    "i < length (rows g)" "j < length (store g (rows g ! i))"
    and g1: "g1 = g\<lparr>store := (store g)(rows g ! i := (store g (rows g ! i))[j := v])\<rparr>"
    by (rule grid_set_cases)
  have "grid_set g1 rc w =
      Inr (g\<lparr>store := (store g)(rows g ! i := (store g (rows g ! i))[j := w])\<rparr>)"
    unfolding g1 using ij by (simp add: grid_set_def)
  with ij show ?thesis by blast
qed

lemma grid_set_restore:
  assumes "grid_get g rc = Inr w" "grid_set g rc v = Inr g1"
  shows "grid_set g1 rc w = Inr g"
proof -
  from grid_set_twice[OF assms(2), of w] obtain i j where
    ij: "py_index (length (rows g)) (fst rc) = Some i"
      "py_index (length (store g (rows g ! i))) (snd rc) = Some j"
    and s: "grid_set g1 rc w =
      Inr (g\<lparr>store := (store g)(rows g ! i := (store g (rows g ! i))[j := w])\<rparr>)" by blast
  from assms(1) ij have "w = store g (rows g ! i) ! j" by (simp add: grid_get_def)
  then show ?thesis using s by simp
qed

lemma grid_get_set_same:
  assumes "grid_set g rc v = Inr g1"
  shows "grid_get g1 rc = Inr v"
proof -
  from assms obtain i j where ij: "py_index (length (rows g)) (fst rc) = Some i"
    "py_index (length (store g (rows g ! i))) (snd rc) = Some j"
    "i < length (rows g)" "j < length (store g (rows g ! i))"
    and g1: "g1 = g\<lparr>store := (store g)(rows g ! i := (store g (rows g ! i))[j := v])\<rparr>"
    by (rule grid_set_cases)
  show ?thesis unfolding g1 using ij by (simp add: grid_get_def)
qed

text \<open>Writing at one address of a list of distinct addresses shows at one index only.\<close>

lemma map_upd_distinct:
  assumes "distinct xs" "i < length xs"
  shows "map (f(xs ! i := y)) xs = (map f xs)[i := y]"
proof (rule nth_equalityI)
  show "length (map (f(xs ! i := y)) xs) = length ((map f xs)[i := y])" by simp
next
  fix k assume "k < length (map (f(xs ! i := y)) xs)"
  then have k: "k < length xs" by simp
  with assms have "xs ! k = xs ! i \<longleftrightarrow> k = i" by (simp add: nth_eq_iff_index_eq)
  with k show "map (f(xs ! i := y)) xs ! k = (map f xs)[i := y] ! k"
    by (cases "k = i") simp_all
qed

section \<open>Properties of the board\<close>

text \<open>
  C9.  \<open>is_consistent\<close> depends only on the size, the grid and the constraints:
  replacing the domain mapping of a board by any other mapping leaves the verdict
  (and any raised error) unchanged.  Two boards that agree on size, grid and
  constraints differ exactly by such a replacement.
\<close>

theorem is_consistent_ignores_domains:
  "is_consistent (b\<lparr>domains := d\<rparr>) var v = is_consistent b var v"
  by (simp add: is_consistent_def cong: sum.case_cong if_cong)

text \<open>
  A grid whose two rows are one list object, as Python's \<open>[[1, 0]] * 2\<close> builds it.
\<close>

definition shared_row_grid :: pygrid where
  "shared_row_grid = \<lparr>rows = [0, 0], store = (\<lambda>a. [])(0 := [1, 0])\<rparr>"

text \<open>
  C8 (as amended).  For a cell (r, c) inside the grid, \<open>assign\<close> followed by
  \<open>unassign\<close> succeeds and leaves the cell at 0 with the full domain {1..size}; the
  domains of all other cells, the size and the constraints are as before.  In the
  grid, the row object that holds the cell is changed at its entry c at most and no
  other row object is changed; so, when the rows of the grid are distinct objects,
  the grid reads as before except at the cell itself.
\<close>

theorem assign_unassign_round_trip:
  assumes "0 \<le> r" "r < int (length (rows (grid b)))" "0 \<le> c"
    "c < int (length (store (grid b) (rows (grid b) ! nat r)))"
  shows "\<exists>b1 b2. assign b (r, c) v = Inr b1 \<and> unassign b1 (r, c) = Inr b2
     \<and> grid_get (grid b2) (r, c) = Inr 0
     \<and> domains b2 (r, c) = Some (full_domain (board_size b))
     \<and> set (full_domain (board_size b)) = {1..board_size b}
     \<and> rows (grid b2) = rows (grid b)
     \<and> store (grid b2) =
         (store (grid b))(rows (grid b) ! nat r :=
            (store (grid b) (rows (grid b) ! nat r))[nat c := 0])
     \<and> (distinct (rows (grid b)) \<longrightarrow>
          grid_rows (grid b2) = (grid_rows (grid b))[nat r := (grid_rows (grid b) ! nat r)[nat c := 0]])
     \<and> (\<forall>x. x \<noteq> (r, c) \<longrightarrow> domains b2 x = domains b x)
     \<and> board_size b2 = board_size b
     \<and> inequality_constraints b2 = inequality_constraints b"
proof -
  let ?a = "rows (grid b) ! nat r"
  let ?g1 = "(grid b)\<lparr>store := (store (grid b))(?a := (store (grid b) ?a)[nat c := v])\<rparr>"
  let ?g2 = "(grid b)\<lparr>store := (store (grid b))(?a := (store (grid b) ?a)[nat c := 0])\<rparr>"
  have a: "assign b (r, c) v = Inr (b\<lparr>grid := ?g1, domains := (domains b)((r, c) \<mapsto> [v])\<rparr>)"
    using assms by (simp add: assign_def grid_set_in_range)
  have u: "grid_set ?g1 (r, c) 0 = Inr ?g2"
    using assms by (simp add: grid_set_in_range)
  have i: "nat r < length (rows (grid b))" using assms by linarith
  have view: "grid_rows ?g2 = (grid_rows (grid b))[nat r := (grid_rows (grid b) ! nat r)[nat c := 0]]"
    if "distinct (rows (grid b))"
    using map_upd_distinct[OF that i] i by (simp add: grid_rows_def)
  show ?thesis
    unfolding a using u grid_get_set_same[OF u] view
    by (simp add: unassign_def full_domain_def)
qed

theorem assign_unassign_round_trip_witness:
  "(0::int) \<le> 0 \<and> (0::int) < int (length (rows (grid clue_board)))
   \<and> (0::int) < int (length (store (grid clue_board) (rows (grid clue_board) ! nat 0)))
   \<and> distinct (rows (grid clue_board))
   \<and> (\<exists>b1 b2. assign clue_board (0, 0) 2 = Inr b1 \<and> unassign b1 (0, 0) = Inr b2
        \<and> grid_get (grid b2) (0, 0) = Inr 0
        \<and> domains b2 (0, 0) = Some [1, 2]
        \<and> grid_rows (grid b2) = [[0, 0], [0, 1]]
        \<and> domains b2 (0, 1) = Some [2])"
proof -
  have h: "(0::int) \<le> 0" "(0::int) < int (length (rows (grid clue_board)))"
    "(0::int) < int (length (store (grid clue_board) (rows (grid clue_board) ! nat 0)))"
    by (simp_all add: clue_board_def fresh_grid_def)
  have d: "distinct (rows (grid clue_board))" by (simp add: clue_board_def fresh_grid_def)
  have gr: "grid_rows (grid clue_board) = [[0, 0], [0, 1]]" by code_simp
  from assign_unassign_round_trip[OF h(1) h(2) h(1) h(3), of 2]
  obtain b1 b2 where r: "assign clue_board (0, 0) 2 = Inr b1" "unassign b1 (0, 0) = Inr b2"
    "grid_get (grid b2) (0, 0) = Inr 0"
    "domains b2 (0, 0) = Some (full_domain (board_size clue_board))"
    "distinct (rows (grid clue_board)) \<longrightarrow>
       grid_rows (grid b2) =
         (grid_rows (grid clue_board))[nat 0 := (grid_rows (grid clue_board) ! nat 0)[nat 0 := 0]]"
    "\<forall>x. x \<noteq> (0, 0) \<longrightarrow> domains b2 x = domains clue_board x"
    by blast
  from r(6) have "domains b2 (0, 1) = domains clue_board (0, 1)" by simp
  then have e: "domains b2 (0, 1) = Some [2]" by (simp add: clue_board_def)
  from r(4) have f: "domains b2 (0, 0) = Some [1, 2]"
    by (simp add: clue_board_def full_domain_def upto.simps)
  from r(5) d have g: "grid_rows (grid b2) = [[0, 0], [0, 1]]" unfolding gr by simp
  show ?thesis using h d r(1,2,3) e f g by blast
qed

text \<open>
  C8 as stated fails: on the board built from a grid whose two rows are one list
  object, the round trip at (0,0) turns the entry of the other cell (1,0) from 1
  into 0.
\<close>

theorem round_trip_changes_shared_row_counterexample:
  "(case FutoshikiBoard 2 (Some shared_row_grid) None of
      Inl e \<Rightarrow> False
    | Inr b \<Rightarrow>
        grid_rows (grid b) = [[1, 0], [1, 0]]
        \<and> (case assign b (0, 0) 2 of
              Inl e \<Rightarrow> False
            | Inr b1 \<Rightarrow>
                (case unassign b1 (0, 0) of
                   Inl e \<Rightarrow> False
                 | Inr b2 \<Rightarrow>
                     grid_get (grid b) (1, 0) = Inr 1 \<and> grid_get (grid b2) (1, 0) = Inr 0
                     \<and> grid_rows (grid b2) = [[0, 0], [0, 0]])))"
  by code_simp

section \<open>Construction performs no validation\<close>

lemma range_list_iff: "x \<in> set (range_list n) \<longleftrightarrow> 0 \<le> x \<and> x < n"
  by (auto simp: range_list_def)

lemma variables_iff: "rc \<in> set (variables n) \<longleftrightarrow> 0 \<le> fst rc \<and> fst rc < n \<and> 0 \<le> snd rc \<and> snd rc < n"
  by (cases rc) (auto simp: variables_def range_list_iff)

text \<open>
  The grid has at least \<open>n\<close> rows of at least \<open>n\<close> entries each, so that every cell
  of the board can be read.
\<close>

definition grid_covers :: "int \<Rightarrow> pygrid \<Rightarrow> bool" where
  "grid_covers n g \<longleftrightarrow>
     n \<le> int (length (rows g)) \<and> list_all (\<lambda>a. n \<le> int (length (store g a))) (rows g)"

lemma grid_covers_get:
  assumes "grid_covers n g" "rc \<in> set (variables n)"
  shows "grid_get g rc = Inr (store g (rows g ! nat (fst rc)) ! nat (snd rc))"
proof -
  from assms(2) have rc: "0 \<le> fst rc" "fst rc < n" "0 \<le> snd rc" "snd rc < n"
    by (simp_all add: variables_iff)
  with assms(1) have r: "fst rc < int (length (rows g))" by (simp add: grid_covers_def)
  then have "rows g ! nat (fst rc) \<in> set (rows g)" using rc(1) by (intro nth_mem) linarith
  with assms(1) have "n \<le> int (length (store g (rows g ! nat (fst rc))))"
    by (simp add: grid_covers_def list_all_iff)
  with rc r show ?thesis by (intro grid_get_in_range) simp_all
qed

lemma init_domains_succeeds:
  assumes "\<forall>rc \<in> set cells. \<not> isl (grid_get g rc)"
  shows "\<not> isl (init_domains g n cells ds)"
  using assms
  by (induction cells arbitrary: ds) (auto split: sum.splits)

lemma enforce_frame:
  "grid (enforce_all_different_constraints b rc v) = grid b"
  "board_size (enforce_all_different_constraints b rc v) = board_size b"
  "inequality_constraints (enforce_all_different_constraints b rc v) = inequality_constraints b"
  by (simp_all add: enforce_all_different_constraints_def)

lemma prune_loop_succeeds:
  assumes "\<forall>rc \<in> set cells. \<not> isl (grid_get (grid b) rc)"
  shows "\<exists>b'. prune_loop b cells = Inr b' \<and> grid b' = grid b \<and> board_size b' = board_size b
     \<and> inequality_constraints b' = inequality_constraints b"
  using assms
proof (induction cells arbitrary: b)
  case Nil
  then show ?case by simp
next
  case (Cons rc cells)
  then obtain v where v: "grid_get (grid b) rc = Inr v" by (cases "grid_get (grid b) rc") auto
  let ?b = "if v \<noteq> 0 then enforce_all_different_constraints b rc v else b"
  have fr: "grid ?b = grid b" "board_size ?b = board_size b"
    "inequality_constraints ?b = inequality_constraints b"
    by (simp_all add: enforce_frame)
  from Cons.prems fr(1) have "\<forall>rc \<in> set cells. \<not> isl (grid_get (grid ?b) rc)" by simp
  from Cons.IH[OF this] fr show ?case using v by simp
qed

text \<open>
  C7 (as amended).  The constructor checks nothing: for every size (also zero or
  negative), every grid that covers the board (whatever its values) and every
  constraint list (whatever the cells it names), construction succeeds and stores
  size, grid and constraints as given.
\<close>

theorem construction_never_validates:
  assumes "grid_covers n (initial_grid_or_default n initial_grid)"
  shows "\<exists>b. FutoshikiBoard n initial_grid constraints = Inr b
     \<and> board_size b = n
     \<and> grid b = initial_grid_or_default n initial_grid
     \<and> inequality_constraints b = (case constraints of None \<Rightarrow> [] | Some cs \<Rightarrow> cs)"
proof -
  let ?g = "initial_grid_or_default n initial_grid"
  have rd: "\<forall>rc \<in> set (variables n). \<not> isl (grid_get ?g rc)"
    using grid_covers_get[OF assms] by simp
  have "\<not> isl (init_domains ?g n (variables n) Map.empty)"
    by (rule init_domains_succeeds[OF rd])
  then obtain ds where
    ds: "init_domains ?g n (variables n) Map.empty = Inr ds"
    by (cases "init_domains ?g n (variables n) Map.empty") auto
  let ?b = "\<lparr>board_size = n, grid = ?g, domains = ds,
     inequality_constraints = (case constraints of None \<Rightarrow> [] | Some cs \<Rightarrow> cs)\<rparr>"
  have "\<forall>rc \<in> set (variables (board_size ?b)). \<not> isl (grid_get (grid ?b) rc)"
    using rd by simp
  from prune_loop_succeeds[OF this] obtain b' where
    "prune_loop ?b (variables n) = Inr b'" "grid b' = ?g" "board_size b' = n"
    "inequality_constraints b' = (case constraints of None \<Rightarrow> [] | Some cs \<Rightarrow> cs)"
    by auto
  then show ?thesis
    by (simp add: FutoshikiBoard_def Let_def ds prune_initial_domains_def)
qed

lemma default_grid_covers: "grid_covers n (initial_grid_or_default n None)"
  by (simp add: grid_covers_def initial_grid_or_default_def fresh_grid_def list_all_iff)

lemma no_cells_covers: "n \<le> 0 \<Longrightarrow> grid_covers n g"
  by (simp add: grid_covers_def list_all_iff)

theorem construction_never_validates_witness:
  "grid_covers 2 (initial_grid_or_default 2 (Some (fresh_grid [[7, 0], [0, 0]])))
   \<and> (\<exists>b. FutoshikiBoard 2 (Some (fresh_grid [[7, 0], [0, 0]]))
              (Some [((5, 5), (0, 0), ''<'')]) = Inr b
        \<and> board_size b = 2 \<and> grid b = fresh_grid [[7, 0], [0, 0]]
        \<and> inequality_constraints b = [((5, 5), (0, 0), ''<'')])"
proof -
  have e: "initial_grid_or_default 2 (Some (fresh_grid [[7, 0], [0, 0]])) = fresh_grid [[7, 0], [0, 0]]"
    by (simp add: initial_grid_or_default_def fresh_grid_def)
  have h: "grid_covers 2 (initial_grid_or_default 2 (Some (fresh_grid [[7, 0], [0, 0]])))"
    by code_simp
  from construction_never_validates[OF h, of "Some [((5, 5), (0, 0), ''<'')]"] h
  show ?thesis unfolding e by simp
qed

text \<open>
  C7 as stated fails: sizes 0 and -3, a grid value 7 on a 2x2 board and a constraint
  on the cell (5,5) of a 2x2 board are all accepted.
\<close>

theorem construction_rejects_counterexample:
  "\<not> isl (FutoshikiBoard 0 None None)
   \<and> \<not> isl (FutoshikiBoard (- 3) None None)
   \<and> \<not> isl (FutoshikiBoard 2 (Some (fresh_grid [[7, 0], [0, 0]])) None)
   \<and> \<not> isl (FutoshikiBoard 2 None (Some [((5, 5), (0, 0), ''<'')]))"
  by code_simp

section \<open>Forward checking on failure\<close>

text \<open>
  C3.  The board built from the clue grid [[0,0],[0,1]], after the tentative
  assignment (0,0) := 2 (which \<open>is_consistent\<close> accepts): forward checking reports
  failure, and the domain of the neighbour (0,1), which was {2} before the call, is
  left empty.
\<close>

theorem forward_check_failure_leaves_empty_domain:
  "(case FutoshikiBoard 2 (Some (fresh_grid [[0, 0], [0, 1]])) None of
      Inl e \<Rightarrow> False
    | Inr b0 \<Rightarrow>
        (case assign b0 (0, 0) 2 of
           Inl e \<Rightarrow> False
         | Inr b1 \<Rightarrow>
             is_consistent b1 (0, 0) 2 = Inr True
             \<and> domains b1 (0, 1) = Some [2]
             \<and> (case forward_check b1 (0, 0) 2 of
                   Inr (None, b2) \<Rightarrow> domains b2 (0, 1) = Some []
                 | _ \<Rightarrow> False)))"
  by code_simp

section \<open>Termination of the arc-consistency loop\<close>

lemma ac2_loop_bounded: "\<exists>n. ac2_bounded n b q = Some (ac2_loop b q)"
proof (induction b q rule: ac2_loop.induct)
  case (1 b)
  have "ac2_bounded (Suc 0) b [] = Some (ac2_loop b [])" by simp
  then show ?case by blast
next
  case (2 b arc queue)
  show ?case
  proof (cases "ac2_step b arc queue")
    case (Inl result)
    then have "ac2_bounded (Suc 0) b (arc # queue) = Some (ac2_loop b (arc # queue))" by simp
    then show ?thesis by blast
  next
    case (Inr st)
    obtain b' q' where st: "st = (b', q')" by (cases st) auto
    from "2.IH"[OF Inr st[symmetric]] obtain n where "ac2_bounded n b' q' = Some (ac2_loop b' q')"
      by blast
    with Inr st have "ac2_bounded (Suc n) b (arc # queue) = Some (ac2_loop b (arc # queue))"
      by simp
    then show ?thesis by blast
  qed
qed

text \<open>
  C6.  For every board (any size, constraints and domains), the loop of \<open>ac2\<close> ends
  after finitely many iterations: some budget of iterations is enough for the
  bounded loop to return, and what it returns is the result of \<open>ac2\<close>.
\<close>

theorem ac2_terminates: "\<exists>n. ac2_bounded n b (initial_queue b) = Some (ac2 b)"
  unfolding ac2_def by (rule ac2_loop_bounded)

section \<open>The least-constraining-value ordering and the board\<close>

lemma unassign_after_assign:
  assumes a: "assign b var v = Inr b1" and u: "unassign b1 var = Inr b2"
    and z: "grid_get (grid b) var = Inr 0"
  shows "b2 = b\<lparr>domains := (domains b)(var \<mapsto> full_domain (board_size b))\<rparr>"
proof -
  from a obtain g1 where g1: "grid_set (grid b) var v = Inr g1"
    and b1: "b1 = b\<lparr>grid := g1, domains := (domains b)(var \<mapsto> [v])\<rparr>"
    by (auto simp: assign_def split: sum.splits)
  from grid_set_restore[OF z g1] have "grid_set g1 var 0 = Inr (grid b)" .
  with u b1 show ?thesis by (simp add: unassign_def)
qed

lemma lcv_loop_frame:
  assumes "lcv_loop b var vs = Inr (counts, b')" and "grid_get (grid b) var = Inr 0"
  shows "b' = (if vs = [] then b
               else b\<lparr>domains := (domains b)(var \<mapsto> full_domain (board_size b))\<rparr>)
         \<and> map fst counts = vs"
  using assms
proof (induction vs arbitrary: b counts b')
  case Nil
  then show ?case by simp
next
  case (Cons v vs)
  from Cons.prems(1) obtain b1 n b2 cs where
    a: "assign b var v = Inr b1" and u: "unassign b1 var = Inr b2"
    and l: "lcv_loop b2 var vs = Inr (cs, b')" and c: "counts = (v, n) # cs"
    by (auto split: sum.splits)
  from unassign_after_assign[OF a u Cons.prems(2)]
  have b2: "b2 = b\<lparr>domains := (domains b)(var \<mapsto> full_domain (board_size b))\<rparr>" .
  then have z: "grid_get (grid b2) var = Inr 0" using Cons.prems(2) by simp
  from Cons.IH[OF l z] show ?case unfolding c b2 by (cases "vs = []") simp_all
qed

text \<open>
  C4 (as amended).  For an unassigned variable, \<open>order_domain_values_lcv\<close> leaves
  the grid, the size, the constraints and the domain of every other cell as they
  were; the domain of the variable itself is left empty when it was empty and is the
  full range {1..size} otherwise.
\<close>

theorem lcv_changes_only_own_domain:
  assumes "order_domain_values_lcv var b = Inr (vals, b')"
    and "grid_get (grid b) var = Inr 0"
  shows "grid b' = grid b \<and> board_size b' = board_size b
     \<and> inequality_constraints b' = inequality_constraints b
     \<and> (\<forall>c. c \<noteq> var \<longrightarrow> domains b' c = domains b c)
     \<and> domains b' var =
         (if domains b var = Some [] then Some [] else Some (full_domain (board_size b)))"
proof -
  from assms(1) obtain d counts where d: "domains b var = Some d"
    and l: "lcv_loop b var d = Inr (counts, b')"
    by (auto simp: order_domain_values_lcv_def split: option.splits sum.splits)
  from lcv_loop_frame[OF l assms(2)] d show ?thesis by (cases "d = []") auto
qed

theorem lcv_changes_only_own_domain_witness:
  "(case order_domain_values_lcv (0, 1) clue_board of
      Inr (vals, b') \<Rightarrow>
        grid_get (grid clue_board) (0, 1) = Inr 0
        \<and> grid b' = grid clue_board
        \<and> domains b' (0, 0) = domains clue_board (0, 0)
        \<and> domains b' (0, 1) = Some (full_domain (board_size clue_board))
    | Inl e \<Rightarrow> False)"
proof -
  have z: "grid_get (grid clue_board) (0, 1) = Inr 0" by code_simp
  have "\<not> isl (order_domain_values_lcv (0, 1) clue_board)"
    by code_simp
  then obtain vals b' where r: "order_domain_values_lcv (0, 1) clue_board = Inr (vals, b')"
    by (cases "order_domain_values_lcv (0, 1) clue_board") auto
  have ne: "domains clue_board (0, 1) \<noteq> Some []" by (simp add: clue_board_def)
  from lcv_changes_only_own_domain[OF r z] ne z show ?thesis unfolding r by simp
qed

text \<open>
  C4 as stated fails: on the board built from [[0,0],[0,1]] the domain of (0,1) is
  {2} before the call and {1,2} after it.
\<close>

theorem lcv_resets_own_domain_counterexample:
  "(case order_domain_values_lcv (0, 1) clue_board of
      Inr (vals, b') \<Rightarrow>
        domains clue_board (0, 1) = Some [2] \<and> domains b' (0, 1) = Some [1, 2]
    | Inl e \<Rightarrow> False)"
  by code_simp

section \<open>What inference and search leave unchanged\<close>

text \<open>Two boards with the same grid, size and constraints (the domains may differ).\<close>

definition same_frame :: "board \<Rightarrow> board \<Rightarrow> bool" where
  "same_frame b b' \<longleftrightarrow> grid b' = grid b \<and> board_size b' = board_size b
     \<and> inequality_constraints b' = inequality_constraints b"

lemma same_frame_refl: "same_frame b b"
  by (simp add: same_frame_def)

lemma same_frame_trans: "same_frame a b \<Longrightarrow> same_frame b c \<Longrightarrow> same_frame a c"
  by (simp add: same_frame_def)

lemma same_frame_domains: "same_frame b (b\<lparr>domains := ds\<rparr>)"
  by (simp add: same_frame_def)

lemma fc_loop_frame:
  "fc_loop b var v od nbs pruned = Inr (r, b') \<Longrightarrow> same_frame b b'"
proof (induction b var v od nbs pruned rule: fc_loop.induct)
  case (1 b var v od pruned)
  then show ?case by (auto simp: same_frame_def)
next
  case (2 b var v od nb rest pruned)
  show ?case
  proof (cases "grid_get (grid b) nb")
    case (Inl e)
    with "2.prems" show ?thesis by simp
  next
    case (Inr gv)
    show ?thesis
    proof (cases "gv = 0")
      case False
      with "2.prems" Inr have "fc_loop b var v od rest pruned = Inr (r, b')" by simp
      from "2.IH"(2)[OF Inr False this] show ?thesis .
    next
      case True
      from "2.prems" Inr True obtain ond where ond: "domains b nb = Some ond"
        by (auto split: option.splits)
      define dn where "dn = fold (fc_value (inequality_constraints b) var v nb) ond ond"
      define ds where "ds = (domains b)(nb \<mapsto> dn)"
      show ?thesis
      proof (cases "dn = []")
        case e: True
        with "2.prems" Inr True ond show ?thesis
          by (auto simp: dn_def[symmetric] Let_def same_frame_def split: sum.splits)
      next
        case ne: False
        with "2.prems" Inr True ond have
          "fc_loop (b\<lparr>domains := ds\<rparr>) var v od rest
             (AList.update nb (filter (\<lambda>x. x \<notin> set dn) ond) pruned) = Inr (r, b')"
          by (simp add: dn_def[symmetric] ds_def[symmetric] Let_def)
        from "2.IH"(1)[OF Inr True ond dn_def ds_def ne this]
        show ?thesis by (simp add: same_frame_def)
      qed
    qed
  qed
qed

lemma forward_check_frame: "forward_check b var v = Inr (r, b') \<Longrightarrow> same_frame b b'"
  by (auto simp: forward_check_def split: option.splits dest!: fc_loop_frame simp: same_frame_def)

lemma revise_same_frame: "revise b xi xj = Inr (r, b') \<Longrightarrow> same_frame b b'"
  using revise_frame[of b xi xj r b'] by (simp add: same_frame_def)

lemma ac2_step_frame:
  "ac2_step b arc q = Inr (b', q') \<Longrightarrow> same_frame b b'"
  "ac2_step b arc q = Inl (Inr (r, b')) \<Longrightarrow> same_frame b b'"
  by (auto simp: ac2_step_def split: prod.splits sum.splits if_splits option.splits
        dest: revise_same_frame)

lemma ac2_loop_frame: "ac2_loop b q = Inr (r, b') \<Longrightarrow> same_frame b b'"
proof (induction b q rule: ac2_loop.induct)
  case (1 b)
  then show ?case by (simp add: same_frame_def)
next
  case (2 b arc queue)
  show ?case
  proof (cases "ac2_step b arc queue")
    case (Inl res)
    with "2.prems" have "ac2_step b arc queue = Inl (Inr (r, b'))" by simp
    then show ?thesis by (rule ac2_step_frame)
  next
    case (Inr st)
    obtain b1 q1 where st: "st = (b1, q1)" by (cases st) auto
    with "2.prems" Inr have "ac2_loop b1 q1 = Inr (r, b')" by simp
    from "2.IH"[OF Inr st[symmetric] this] ac2_step_frame(1)[OF Inr[unfolded st]]
    show ?thesis by (rule same_frame_trans[rotated])
  qed
qed

lemma ac2_frame: "ac2 b = Inr (r, b') \<Longrightarrow> same_frame b b'"
  unfolding ac2_def by (rule ac2_loop_frame)

lemma infer_frame: "infer s b var v = Inr (r, b') \<Longrightarrow> same_frame b b'"
  by (auto simp: infer_def split: if_splits sum.splits prod.splits
      dest!: forward_check_frame ac2_frame intro: same_frame_refl same_frame_trans)

lemma unassigned_loop_set:
  "unassigned_loop g cells = Inr us \<Longrightarrow> set us = {rc \<in> set cells. grid_get g rc = Inr 0}"
proof (induction cells arbitrary: us)
  case Nil
  then show ?case by simp
next
  case (Cons rc cells)
  from Cons.prems obtain v us' where v: "grid_get g rc = Inr v"
    and us': "unassigned_loop g cells = Inr us'" and us: "us = (if v = 0 then rc # us' else us')"
    by (auto split: sum.splits)
  have ih: "set us' = {rc \<in> set cells. grid_get g rc = Inr 0}" by (rule Cons.IH[OF us'])
  show ?case
  proof (cases "v = 0")
    case True
    with v us have "set us = insert rc (set us')" "grid_get g rc = Inr 0" by simp_all
    with ih show ?thesis by auto
  next
    case False
    with v us have "set us = set us'" "grid_get g rc \<noteq> Inr 0" by simp_all
    with ih show ?thesis by auto
  qed
qed

lemma unassigned_loop_readable:
  "unassigned_loop g cells = Inr us \<Longrightarrow> rc \<in> set cells \<Longrightarrow> \<not> isl (grid_get g rc)"
proof (induction cells arbitrary: us)
  case Nil
  then show ?case by simp
next
  case (Cons c cells)
  from Cons.prems(1) obtain v us' where v: "grid_get g c = Inr v"
    and us': "unassigned_loop g cells = Inr us'"
    by (auto split: sum.splits)
  from Cons.prems(2) Cons.IH[OF us'] v show ?case by auto
qed

lemma get_unassigned_set:
  "get_unassigned_variables b = Inr us \<Longrightarrow>
     set us = {rc \<in> set (variables (board_size b)). grid_get (grid b) rc = Inr 0}"
  unfolding get_unassigned_variables_def by (rule unassigned_loop_set)

lemma mrv_loop_mem:
  "mrv_loop b us m best = Inr (Some var) \<Longrightarrow> var \<in> set us \<or> best = Some var"
proof (induction us arbitrary: m best)
  case Nil
  then show ?case by simp
next
  case (Cons u us)
  from Cons.prems obtain d where d: "domains b u = Some d"
    by (cases "domains b u") simp_all
  show ?case
  proof (cases "case m of None \<Rightarrow> True | Some k \<Rightarrow> length d < k")
    case True
    with Cons.prems d have "mrv_loop b us (Some (length d)) (Some u) = Inr (Some var)" by simp
    from Cons.IH[OF this] show ?thesis by auto
  next
    case False
    with Cons.prems d have "mrv_loop b us m best = Inr (Some var)" by simp
    from Cons.IH[OF this] show ?thesis by auto
  qed
qed

lemma chosen_var_unassigned:
  assumes "get_unassigned_variables (board s) = Inr us" "us \<noteq> []"
    and "select_variable s us = Inr var"
  shows "var \<in> set us"
proof (cases "use_mrv s")
  case True
  with assms have "mrv_loop (board s) us None None = Inr (Some var)"
    by (auto simp: select_variable_def select_unassigned_variable_mrv_def
          split: sum.splits option.splits)
  from mrv_loop_mem[OF this] show ?thesis by simp
next
  case False
  with assms show ?thesis by (auto simp: select_variable_def)
qed

lemma candidate_values_frame:
  assumes "candidate_values s var = Inr (vals, b1)"
    and "grid_get (grid (board s)) var = Inr 0"
  shows "same_frame (board s) b1"
proof (cases "use_lcv s")
  case True
  with assms(1) have "order_domain_values_lcv var (board s) = Inr (vals, b1)"
    by (simp add: candidate_values_def)
  then obtain d counts where "lcv_loop (board s) var d = Inr (counts, b1)"
    by (auto simp: order_domain_values_lcv_def split: option.splits sum.splits)
  from lcv_loop_frame[OF this assms(2)] show ?thesis
    by (auto simp: same_frame_def split: if_splits)
next
  case False
  with assms(1) show ?thesis
    by (auto simp: candidate_values_def same_frame_def split: option.splits)
qed

lemma search_Suc_cases:
  assumes "backtracking_search (Suc d) s = Inr (r, s')"
  obtains (complete) "get_unassigned_variables (board s) = Inr []" "r" "s' = s"
  | (branch) us var vals b1 where "get_unassigned_variables (board s) = Inr us"
      "var \<in> set us" "candidate_values s var = Inr (vals, b1)"
      "try_values d (s\<lparr>board := b1\<rparr>) var vals = Inr (r, s')"
proof -
  from assms obtain us where us: "get_unassigned_variables (board s) = Inr us"
    by (auto split: sum.splits)
  show thesis
  proof (cases "us = []")
    case True
    with assms us show thesis by (intro complete) auto
  next
    case False
    from assms us False obtain var where var: "select_variable s us = Inr var"
      by (auto split: sum.splits)
    from assms us False var obtain vals b1 where
      cv: "candidate_values s var = Inr (vals, b1)"
      and tv: "try_values d (s\<lparr>board := b1\<rparr>) var vals = Inr (r, s')"
      by (auto split: sum.splits)
    show thesis by (rule branch[OF us chosen_var_unassigned[OF us False var] cv tv])
  qed
qed

lemma try_values_Cons_cases:
  assumes "try_values d s var (v # rest) = Inr (r, s')"
  obtains (found) b1 b2 where "assign (board s) var v = Inr b1"
      "is_consistent b1 var v = Inr True" "infer s b1 var v = Inr (True, b2)"
      "backtracking_search d (s\<lparr>board := b2\<rparr>) = Inr (True, s')" "r"
  | (inconsistent) b1 s4 where "assign (board s) var v = Inr b1"
      "is_consistent b1 var v = Inr False"
      "backtrack (s\<lparr>board := b1\<rparr>) var (domains (board s)) = Inr s4"
      "try_values d s4 var rest = Inr (r, s')"
  | (pruned) b1 b2 s4 where "assign (board s) var v = Inr b1"
      "is_consistent b1 var v = Inr True" "infer s b1 var v = Inr (False, b2)"
      "backtrack (s\<lparr>board := b2\<rparr>) var (domains (board s)) = Inr s4"
      "try_values d s4 var rest = Inr (r, s')"
  | (failed) b1 b2 s3 s4 where "assign (board s) var v = Inr b1"
      "is_consistent b1 var v = Inr True" "infer s b1 var v = Inr (True, b2)"
      "backtracking_search d (s\<lparr>board := b2\<rparr>) = Inr (False, s3)"
      "backtrack s3 var (domains (board s)) = Inr s4"
      "try_values d s4 var rest = Inr (r, s')"
proof -
  from assms obtain b1 where b1: "assign (board s) var v = Inr b1"
    by (cases "assign (board s) var v") (simp_all add: Let_def)
  from assms b1 obtain c where c: "is_consistent b1 var v = Inr c"
    by (cases "is_consistent b1 var v") (simp_all add: Let_def)
  note eqs = Let_def b1 c
  show thesis
  proof (cases c)
    case False
    from assms False obtain s4 where
      s4: "backtrack (s\<lparr>board := b1\<rparr>) var (domains (board s)) = Inr s4"
      by (cases "backtrack (s\<lparr>board := b1\<rparr>) var (domains (board s))")
         (simp_all add: eqs)
    from assms False s4 have "try_values d s4 var rest = Inr (r, s')" by (simp add: eqs)
    with b1 c False s4 show thesis by (intro inconsistent[of b1 s4]) simp_all
  next
    case True
    from assms True obtain ok b2 where i: "infer s b1 var v = Inr (ok, b2)"
      by (cases "infer s b1 var v") (auto simp: eqs)
    show thesis
    proof (cases ok)
      case False
      from assms True False i obtain s4 where
        s4: "backtrack (s\<lparr>board := b2\<rparr>) var (domains (board s)) = Inr s4"
        by (cases "backtrack (s\<lparr>board := b2\<rparr>) var (domains (board s))")
           (simp_all add: eqs)
      from assms True False i s4 have "try_values d s4 var rest = Inr (r, s')"
        by (simp add: eqs)
      with b1 c True i False s4 show thesis by (intro pruned[of b1 b2 s4]) simp_all
    next
      case ok: True
      from assms True i ok obtain f s3 where
        bs: "backtracking_search d (s\<lparr>board := b2\<rparr>) = Inr (f, s3)"
        by (cases "backtracking_search d (s\<lparr>board := b2\<rparr>)") (auto simp: eqs)
      show thesis
      proof (cases f)
        case f: True
        with assms True i ok bs have "r" "s' = s3" by (simp_all add: eqs)
        with b1 c True i ok bs f show thesis by (intro found[of b1 b2]) simp_all
      next
        case False
        from assms True i ok bs False obtain s4 where
          s4: "backtrack s3 var (domains (board s)) = Inr s4"
          by (cases "backtrack s3 var (domains (board s))") (simp_all add: eqs)
        from assms True i ok bs False s4 have "try_values d s4 var rest = Inr (r, s')"
          by (simp add: eqs)
        with b1 c True i ok bs False s4 show thesis
          by (intro failed[of b1 b2 s3 s4]) simp_all
      qed
    qed
  qed
qed

lemma backtrack_cases:
  assumes "backtrack s3 var snap = Inr s4"
  obtains b4 where "unassign (board s3) var = Inr b4"
    "s4 = s3\<lparr>board := b4\<lparr>domains := snap\<rparr>, backtracks := backtracks s3 + 1\<rparr>"
  using assms by (auto simp: backtrack_def split: sum.splits)

lemma backtrack_restores:
  assumes a: "assign b var v = Inr b1" and g: "grid (board s3) = grid b1"
    and z: "grid_get (grid b) var = Inr 0" and bt: "backtrack s3 var snap = Inr s4"
  shows "grid (board s4) = grid b" "domains (board s4) = snap"
    "board_size (board s4) = board_size (board s3)"
    "inequality_constraints (board s4) = inequality_constraints (board s3)"
proof -
  from bt obtain b4 where u: "unassign (board s3) var = Inr b4"
    and s4: "s4 = s3\<lparr>board := b4\<lparr>domains := snap\<rparr>, backtracks := backtracks s3 + 1\<rparr>"
    by (rule backtrack_cases)
  from a obtain g1 where g1: "grid_set (grid b) var v = Inr g1" "grid b1 = g1"
    by (auto simp: assign_def split: sum.splits)
  from u g g1 obtain g4 where g4: "grid_set g1 var 0 = Inr g4" "grid b4 = g4"
    "board_size b4 = board_size (board s3)"
    "inequality_constraints b4 = inequality_constraints (board s3)"
    by (auto simp: unassign_def split: sum.splits)
  from grid_set_restore[OF z g1(1)] g4(1) have "g4 = grid b" by simp
  with s4 g4 show "grid (board s4) = grid b" "domains (board s4) = snap"
    "board_size (board s4) = board_size (board s3)"
    "inequality_constraints (board s4) = inequality_constraints (board s3)"
    by simp_all
qed

lemma assign_frame:
  assumes "assign b var v = Inr b1"
  shows "board_size b1 = board_size b" "inequality_constraints b1 = inequality_constraints b"
    "domains b1 = (domains b)(var \<mapsto> [v])" "grid_set (grid b) var v = Inr (grid b1)"
  using assms by (auto simp: assign_def split: sum.splits)

lemma try_values_failure_grid:
  assumes IH: "\<And>s s'. backtracking_search d s = Inr (False, s') \<Longrightarrow>
                 grid (board s') = grid (board s)"
  shows "try_values d s var vals = Inr (False, s') \<Longrightarrow> grid_get (grid (board s)) var = Inr 0
           \<Longrightarrow> grid (board s') = grid (board s)"
proof (induction vals arbitrary: s)
  case Nil
  then show ?case by simp
next
  case (Cons v rest)
  from Cons.prems(1) show ?case
  proof (cases rule: try_values_Cons_cases)
    case (found b1 b2)
    then show ?thesis by simp
  next
    case (inconsistent b1 s4)
    have g: "grid (board s4) = grid (board s)"
      by (rule backtrack_restores(1)[OF inconsistent(1) _ Cons.prems(2) inconsistent(3)]) simp
    from Cons.IH[OF inconsistent(4)] g Cons.prems(2) show ?thesis by simp
  next
    case (pruned b1 b2 s4)
    from infer_frame[OF pruned(3)] have "grid b2 = grid b1" by (simp add: same_frame_def)
    then have g: "grid (board s4) = grid (board s)"
      by (intro backtrack_restores(1)[OF pruned(1) _ Cons.prems(2) pruned(4)]) simp
    from Cons.IH[OF pruned(5)] g Cons.prems(2) show ?thesis by simp
  next
    case (failed b1 b2 s3 s4)
    from infer_frame[OF failed(3)] have "grid b2 = grid b1" by (simp add: same_frame_def)
    with IH[OF failed(4)] have "grid (board s3) = grid b1" by simp
    then have g: "grid (board s4) = grid (board s)"
      by (intro backtrack_restores(1)[OF failed(1) _ Cons.prems(2) failed(5)])
    from Cons.IH[OF failed(6)] g Cons.prems(2) show ?thesis by simp
  qed
qed

lemma search_failure_grid:
  "backtracking_search d s = Inr (False, s') \<Longrightarrow> grid (board s') = grid (board s)"
proof (induction d arbitrary: s s')
  case 0
  then show ?case by simp
next
  case (Suc d)
  from Suc.prems show ?case
  proof (cases rule: search_Suc_cases)
    case complete
    then show ?thesis by simp
  next
    case (branch us var vals b1)
    from get_unassigned_set[OF branch(1)] branch(2)
    have z: "grid_get (grid (board s)) var = Inr 0" by auto
    from candidate_values_frame[OF branch(3) z] have g1: "grid b1 = grid (board s)"
      by (simp add: same_frame_def)
    from try_values_failure_grid[OF Suc.IH branch(4)] z g1 show ?thesis by simp
  qed
qed

lemma solve_failure_grid:
  assumes "solve d s = Inr (False, s')"
  shows "grid (board s') = grid (board s)"
proof (cases "use_ac2 s")
  case False
  with assms have "backtracking_search d (s\<lparr>backtracks := 0\<rparr>) = Inr (False, s')"
    by (simp add: solve_def Let_def)
  from search_failure_grid[OF this] show ?thesis by simp
next
  case True
  with assms obtain ok b where a: "ac2 (board s) = Inr (ok, b)"
    by (auto simp: solve_def Let_def split: sum.splits)
  from ac2_frame[OF a] have g: "grid b = grid (board s)" by (simp add: same_frame_def)
  show ?thesis
  proof (cases ok)
    case False
    with assms True a g show ?thesis by (auto simp: solve_def Let_def)
  next
    case ok: True
    with assms True a have
      "backtracking_search d (s\<lparr>backtracks := 0, board := b\<rparr>) = Inr (False, s')"
      by (simp add: solve_def Let_def)
    from search_failure_grid[OF this] g show ?thesis by simp
  qed
qed

text \<open>
  A 2x2 board with the clue 1 at (0,0) and the constraint (0,1) < (1,1), which has
  no solution, under a solver with the given flags.
\<close>

definition unsolvable_solver :: "bool \<Rightarrow> bool \<Rightarrow> bool \<Rightarrow> bool \<Rightarrow> csp" where
  "unsolvable_solver fc ac mrv lcv =
     CSPSolver
       \<lparr>board_size = 2, grid = fresh_grid [[1, 0], [0, 0]],
        domains = [(0, 0) \<mapsto> [1], (0, 1) \<mapsto> [2], (1, 0) \<mapsto> [2], (1, 1) \<mapsto> [1, 2]],
        inequality_constraints = [((0, 1), (1, 1), ''<'')]\<rparr> fc ac mrv lcv"

text \<open>
  C10.  Whenever the recursive search returns failure, the grid is the grid at its
  entry; and whenever \<open>solve\<close> returns failure, the grid is the initial grid.
\<close>

theorem failed_search_restores_grid:
  "(backtracking_search d s = Inr (False, s') \<longrightarrow> grid (board s') = grid (board s))
   \<and> (solve d s = Inr (False, s') \<longrightarrow> grid (board s') = grid (board s))"
  using search_failure_grid solve_failure_grid by blast

theorem failed_search_restores_grid_witness:
  "\<exists>s1 s2. backtracking_search 10 (unsolvable_solver False False False False) = Inr (False, s1)
      \<and> solve 10 (unsolvable_solver True False False True) = Inr (False, s2)
      \<and> grid (board s1) = fresh_grid [[1, 0], [0, 0]]
      \<and> grid (board s2) = fresh_grid [[1, 0], [0, 0]]"
proof -
  let ?a = "unsolvable_solver False False False False"
  let ?b = "unsolvable_solver True False False True"
  have "\<not> isl (backtracking_search 10 ?a) \<and> \<not> fst (projr (backtracking_search 10 ?a))"
    by code_simp
  then obtain s1 where s1: "backtracking_search 10 ?a = Inr (False, s1)"
    by (cases "backtracking_search 10 ?a") auto
  have "\<not> isl (solve 10 ?b) \<and> \<not> fst (projr (solve 10 ?b))"
    by code_simp
  then obtain s2 where s2: "solve 10 ?b = Inr (False, s2)"
    by (cases "solve 10 ?b") auto
  have ga: "grid (board ?a) = fresh_grid [[1, 0], [0, 0]]"
    and gb: "grid (board ?b) = fresh_grid [[1, 0], [0, 0]]"
    by (simp_all add: unsolvable_solver_def CSPSolver_def)
  from failed_search_restores_grid[of 10 ?a s1] failed_search_restores_grid[of 10 ?b s2]
    s1 s2 ga gb show ?thesis by simp
qed

section \<open>Success on clue grids that are not Latin\<close>

text \<open>
  C1.  \<open>is_consistent\<close> tests only the cell that is being assigned, and the search
  reports success as soon as no cell holds 0.  The clue grid [[1,1],[1,1]] holds 1
  twice in every row and column: under every combination of the four flags \<open>solve\<close>
  reports success and the grid is the one given.  The clue grid
  [[1,2,3],[1,2,3],[0,0,0]] holds equal clues in every column: the plain search
  fills the last row and reports success with two equal values in every column,
  while \<open>solve\<close> with arc consistency enabled reports failure on the same board.
\<close>

theorem solve_accepts_equal_clues:
  "(\<forall>fc ac mrv lcv.
      (case FutoshikiBoard 2 (Some (fresh_grid [[1, 1], [1, 1]])) None of
         Inl e \<Rightarrow> False
       | Inr b \<Rightarrow>
           (case solve 10 (CSPSolver b fc ac mrv lcv) of
              Inr (True, s') \<Rightarrow> grid_rows (grid (board s')) = [[1, 1], [1, 1]]
            | _ \<Rightarrow> False)))
   \<and> (case FutoshikiBoard 3 (Some (fresh_grid [[1, 2, 3], [1, 2, 3], [0, 0, 0]])) None of
         Inl e \<Rightarrow> False
       | Inr b \<Rightarrow>
           (case solve 10 (CSPSolver b False False False False) of
              Inr (True, s') \<Rightarrow>
                grid_rows (grid (board s')) = [[1, 2, 3], [1, 2, 3], [2, 3, 1]]
            | _ \<Rightarrow> False)
           \<and> (case solve 10 (CSPSolver b False True False False) of
                 Inr (False, s') \<Rightarrow> True
               | _ \<Rightarrow> False))"
  by code_simp

section \<open>Arc consistency leaves supported values\<close>

text \<open>
  What \<open>revise\<close> tests for one pair of values: the constraint links the two cells,
  and the constraint is met strictly, read in its own direction.
\<close>

definition links :: "cell \<Rightarrow> cell \<Rightarrow> constraint \<Rightarrow> bool" where
  "links xi xj t \<longleftrightarrow> (fst t = xi \<and> fst (snd t) = xj) \<or> (fst t = xj \<and> fst (snd t) = xi)"

definition met :: "cell \<Rightarrow> cell \<Rightarrow> int \<Rightarrow> int \<Rightarrow> constraint \<Rightarrow> bool" where
  "met xi xj x y t \<longleftrightarrow>
     (fst t = xi \<and> fst (snd t) = xj
        \<and> ((snd (snd t) = ''<'' \<and> x < y) \<or> (snd (snd t) = ''>'' \<and> x > y)))
     \<or> (fst t = xj \<and> fst (snd t) = xi
        \<and> ((snd (snd t) = ''<'' \<and> y < x) \<or> (snd (snd t) = ''>'' \<and> y > x)))"

lemma met_links: "met xi xj x y t \<Longrightarrow> links xi xj t"
  unfolding met_def links_def by blast

lemma met_swap: "met xi xj x y t \<longleftrightarrow> met xj xi y x t"
  unfolding met_def by blast

lemma links_swap: "links xi xj t \<longleftrightarrow> links xj xi t"
  unfolding links_def by blast

lemma revise_inequality_step:
  assumes "xi \<noteq> xj"
  shows "revise_inequality xi xj x y (t # rest) acc =
     (if met xi xj x y t then (True, True)
      else revise_inequality xi xj x y rest (acc \<or> links xi xj t))"
proof -
  obtain v1 v2 op where t: "t = (v1, v2, op)" by (cases t) auto
  have eq: "revise_inequality xi xj x y (t # rest) acc =
     (if v1 = xi \<and> v2 = xj then
        (if op = ''<'' \<and> x < y then (True, True)
         else if op = ''>'' \<and> x > y then (True, True)
         else revise_inequality xi xj x y rest True)
      else if v1 = xj \<and> v2 = xi then
        (if op = ''<'' \<and> y < x then (True, True)
         else if op = ''>'' \<and> y > x then (True, True)
         else revise_inequality xi xj x y rest True)
      else revise_inequality xi xj x y rest acc)"
    unfolding t by (simp only: revise_inequality.simps)
  have m: "met xi xj x y t \<longleftrightarrow>
     (v1 = xi \<and> v2 = xj \<and> ((op = ''<'' \<and> x < y) \<or> (op = ''>'' \<and> x > y)))
     \<or> (v1 = xj \<and> v2 = xi \<and> ((op = ''<'' \<and> y < x) \<or> (op = ''>'' \<and> y > x)))"
    unfolding met_def t by (simp only: fst_conv snd_conv)
  have l: "links xi xj t \<longleftrightarrow> (v1 = xi \<and> v2 = xj) \<or> (v1 = xj \<and> v2 = xi)"
    unfolding links_def t by (simp only: fst_conv snd_conv)
  show ?thesis
  proof (cases "v1 = xi \<and> v2 = xj")
    case A: True
    with assms have nB: "\<not> (v1 = xj \<and> v2 = xi)" by blast
    from A have lk: "links xi xj t" unfolding l by blast
    show ?thesis
    proof (cases "(op = ''<'' \<and> x < y) \<or> (op = ''>'' \<and> x > y)")
      case True
      with A have mt: "met xi xj x y t" unfolding m by blast
      from True show ?thesis unfolding eq if_P[OF A] if_P[OF mt] by auto
    next
      case False
      with nB have mt: "\<not> met xi xj x y t" unfolding m by blast
      from False lk show ?thesis unfolding eq if_P[OF A] if_not_P[OF mt] by auto
    qed
  next
    case nA: False
    show ?thesis
    proof (cases "v1 = xj \<and> v2 = xi")
      case B: True
      from B have lk: "links xi xj t" unfolding l by blast
      show ?thesis
      proof (cases "(op = ''<'' \<and> y < x) \<or> (op = ''>'' \<and> y > x)")
        case True
        with B have mt: "met xi xj x y t" unfolding m by blast
        from True show ?thesis unfolding eq if_not_P[OF nA] if_P[OF B] if_P[OF mt] by auto
      next
        case False
        with nA have mt: "\<not> met xi xj x y t" unfolding m by blast
        from False lk show ?thesis
          unfolding eq if_not_P[OF nA] if_P[OF B] if_not_P[OF mt] by auto
      qed
    next
      case nB: False
      with nA have mt: "\<not> met xi xj x y t" unfolding m by blast
      from nA nB have lk: "\<not> links xi xj t" unfolding l by blast
      show ?thesis
        unfolding eq if_not_P[OF nA] if_not_P[OF nB] if_not_P[OF mt] using lk by simp
    qed
  qed
qed

lemma revise_inequality_char:
  assumes "xi \<noteq> xj"
  shows "revise_inequality xi xj x y cs acc =
     (if list_ex (met xi xj x y) cs then (True, True)
      else (acc \<or> list_ex (links xi xj) cs, False))"
proof (induction cs arbitrary: acc)
  case Nil
  show ?case by simp
next
  case (Cons t cs)
  show ?case
  proof (cases "met xi xj x y t")
    case True
    then show ?thesis unfolding revise_inequality_step[OF assms] by simp
  next
    case False
    then show ?thesis unfolding revise_inequality_step[OF assms] if_not_P[OF False] Cons.IH
      by auto
  qed
qed

text \<open>The pairs of values that \<open>revise\<close> accepts for two distinct cells.\<close>

definition compatible :: "constraint list \<Rightarrow> cell \<Rightarrow> cell \<Rightarrow> int \<Rightarrow> int \<Rightarrow> bool" where
  "compatible cs xi xj x y \<longleftrightarrow>
     \<not> ((fst xi = fst xj \<or> snd xi = snd xj) \<and> x = y)
     \<and> (list_ex (links xi xj) cs \<longrightarrow> list_ex (met xi xj x y) cs)"

lemma compatible_swap: "compatible cs xi xj x y \<longleftrightarrow> compatible cs xj xi y x"
proof -
  have "met xi xj x y = met xj xi y x" "links xi xj = links xj xi"
    using met_swap links_swap by blast+
  then show ?thesis unfolding compatible_def by auto
qed

lemma revise_support_step:
  assumes "xi \<noteq> xj"
  shows "revise_support cs xi xj x (y # ys) =
     (if compatible cs xi xj x y then True else revise_support cs xi xj x ys)"
proof (cases "(fst xi = fst xj \<or> snd xi = snd xj) \<and> x = y")
  case True
  then have "\<not> compatible cs xi xj x y" unfolding compatible_def by blast
  with True show ?thesis by (simp only: revise_support.simps if_P if_not_P if_False)
next
  case False
  show ?thesis
  proof (cases "list_ex (met xi xj x y) cs")
    case m: True
    then have c: "compatible cs xi xj x y" using False unfolding compatible_def by blast
    have r: "revise_inequality xi xj x y cs False = (True, True)"
      unfolding revise_inequality_char[OF assms] using m by simp
    show ?thesis
      unfolding revise_support.simps if_not_P[OF False] r if_P[OF c] by simp
  next
    case nm: False
    have r: "revise_inequality xi xj x y cs False = (list_ex (links xi xj) cs, False)"
      unfolding revise_inequality_char[OF assms] using nm by simp
    show ?thesis
    proof (cases "list_ex (links xi xj) cs")
      case True
      with nm have c: "\<not> compatible cs xi xj x y" unfolding compatible_def by blast
      from True show ?thesis
        unfolding revise_support.simps if_not_P[OF False] r if_not_P[OF c] by simp
    next
      case nl: False
      with False have c: "compatible cs xi xj x y" unfolding compatible_def by blast
      from nl False show ?thesis
        unfolding revise_support.simps if_not_P[OF False] r if_P[OF c] by auto
    qed
  qed
qed

lemma revise_support_iff:
  assumes "xi \<noteq> xj"
  shows "revise_support cs xi xj x ys \<longleftrightarrow> list_ex (compatible cs xi xj x) ys"
proof (induction ys)
  case Nil
  show ?case by simp
next
  case (Cons y ys)
  show ?case unfolding revise_support_step[OF assms] using Cons.IH by simp
qed

lemma row_others_iff:
  "c' \<in> set (row_others n c) \<longleftrightarrow> fst c' = fst c \<and> snd c' \<noteq> snd c \<and> 0 \<le> snd c' \<and> snd c' < n"
  by (cases c') (auto simp: row_others_def range_list_iff)

lemma col_others_iff:
  "c' \<in> set (col_others n c) \<longleftrightarrow> snd c' = snd c \<and> fst c' \<noteq> fst c \<and> 0 \<le> fst c' \<and> fst c' < n"
  by (cases c') (auto simp: col_others_def range_list_iff)

text \<open>
  The arc from \<open>xi\<close> to \<open>xj\<close> is consistent on a board when every value of the domain
  of \<open>xi\<close> has a compatible value in the domain of \<open>xj\<close>.
\<close>

definition arc_consistent :: "board \<Rightarrow> cell \<Rightarrow> cell \<Rightarrow> bool" where
  "arc_consistent b xi xj \<longleftrightarrow>
     (\<forall>di. domains b xi = Some di \<longrightarrow>
        (\<forall>x \<in> set di. \<exists>dj. domains b xj = Some dj
           \<and> list_ex (compatible (inequality_constraints b) xi xj x) dj))"

text \<open>The directed arcs between distinct, directly constrained cells of the board.\<close>

definition arcs :: "board \<Rightarrow> (cell \<times> cell) set" where
  "arcs b = {(xi, xj). xi \<in> set (variables (board_size b)) \<and> xj \<in> set (variables (board_size b))
     \<and> xi \<noteq> xj \<and> is_constrained (inequality_constraints b) xi xj}"

text \<open>The invariant of the loop: every arc that is not consistent is in the queue.\<close>

definition queue_inv :: "board \<Rightarrow> (cell \<times> cell) list \<Rightarrow> bool" where
  "queue_inv b q \<longleftrightarrow> (\<forall>arc \<in> arcs b. arc \<in> set q \<or> arc_consistent b (fst arc) (snd arc))"

lemma arcs_same_frame: "same_frame b b' \<Longrightarrow> arcs b' = arcs b"
  by (simp add: arcs_def same_frame_def)

lemma revise_False:
  assumes "revise b xi xj = Inr (False, b')" "xi \<noteq> xj"
  shows "arc_consistent b xi xj"
  unfolding arc_consistent_def
proof (intro allI impI ballI)
  fix di x assume di: "domains b xi = Some di" and x: "x \<in> set di"
  then have ne: "di \<noteq> []" by auto
  from assms(1) di ne obtain dj where dj: "domains b xj = Some dj"
    unfolding revise_def by (cases "domains b xj") simp_all
  from assms(1) di ne dj have
    "filter (\<lambda>x. \<not> revise_support (inequality_constraints b) xi xj x dj) di = []"
    unfolding revise_def by (simp add: Let_def split: if_splits)
  with x have "revise_support (inequality_constraints b) xi xj x dj"
    by (simp add: filter_empty_conv)
  with dj show "\<exists>dj. domains b xj = Some dj
      \<and> list_ex (compatible (inequality_constraints b) xi xj x) dj"
    by (simp add: revise_support_iff[OF assms(2)])
qed

lemma revise_True:
  assumes "revise b xi xj = Inr (True, b')" "xi \<noteq> xj"
  shows "\<exists>di dj. domains b xi = Some di \<and> domains b xj = Some dj
     \<and> domains b' = (domains b)(xi \<mapsto>
          filter (\<lambda>x. list_ex (compatible (inequality_constraints b) xi xj x) dj) di)"
proof -
  from assms(1) obtain di where di: "domains b xi = Some di"
    unfolding revise_def by (cases "domains b xi") simp_all
  from assms(1) di have ne: "di \<noteq> []" unfolding revise_def by (cases "di = []") simp_all
  from assms(1) di ne obtain dj where dj: "domains b xj = Some dj"
    unfolding revise_def by (cases "domains b xj") simp_all
  let ?P = "\<lambda>x. revise_support (inequality_constraints b) xi xj x dj"
  define R where "R = filter (\<lambda>x. \<not> ?P x) di"
  have fe: "filter (\<lambda>x. x \<notin> set R) di = filter ?P di"
    unfolding R_def by (rule filter_cong) auto
  from assms(1) di ne dj have
    "b' = b\<lparr>domains := (domains b)(xi \<mapsto> filter (\<lambda>x. x \<notin> set R) di)\<rparr>"
    unfolding revise_def by (simp add: Let_def R_def[symmetric] split: if_splits)
  then have "domains b' = (domains b)(xi \<mapsto> filter ?P di)"
    unfolding fe by simp
  with di dj show ?thesis by (simp add: revise_support_iff[OF assms(2)])
qed

lemma arc_neighbor:
  assumes "(a, xi) \<in> arcs b"
  shows "a \<in> set (get_neighbors b xi)"
proof -
  from assms have a: "a \<in> set (variables (board_size b))" and ne: "a \<noteq> xi"
    and c: "is_constrained (inequality_constraints b) a xi" by (simp_all add: arcs_def)
  from a have r: "0 \<le> fst a" "fst a < board_size b" "0 \<le> snd a" "snd a < board_size b"
    by (simp_all add: variables_iff)
  from c consider "fst a = fst xi" | "snd a = snd xi"
    | "list_ex (\<lambda>(v1, v2, op). (v1 = a \<and> v2 = xi) \<or> (v1 = xi \<and> v2 = a)) (inequality_constraints b)"
    unfolding is_constrained_def by blast
  then have "a \<in> set (row_others (board_size b) xi) \<or> a \<in> set (col_others (board_size b) xi)
     \<or> a \<in> set (inequality_neighbors xi (inequality_constraints b))"
  proof cases
    case 1
    with ne have "snd a \<noteq> snd xi" by (cases a; cases xi) auto
    with 1 r show ?thesis unfolding row_others_iff by blast
  next
    case 2
    with ne have "fst a \<noteq> fst xi" by (cases a; cases xi) auto
    with 2 r show ?thesis unfolding col_others_iff by blast
  next
    case 3
    then obtain v1 v2 op where t: "(v1, v2, op) \<in> set (inequality_constraints b)"
      "(v1 = a \<and> v2 = xi) \<or> (v1 = xi \<and> v2 = a)"
      unfolding list_ex_iff by auto
    then show ?thesis using in_inequality_neighbors[of v1 v2 op "inequality_constraints b" xi]
      by blast
  qed
  then show ?thesis by (simp add: get_neighbors_def)
qed

lemma ac2_step_Inl:
  assumes "ac2_step b arc q = Inl (Inr (r, b'))"
  shows "\<not> r"
proof -
  obtain xi xj where arc: "arc = (xi, xj)" by (cases arc) auto
  show ?thesis
  proof (cases "revise b xi xj")
    case (Inl e)
    with assms show ?thesis by (simp add: ac2_step_def arc)
  next
    case (Inr p)
    obtain revised b1 where p: "p = (revised, b1)" by (cases p) auto
    show ?thesis
    proof (cases revised)
      case False
      with assms Inr p show ?thesis by (simp add: ac2_step_def arc)
    next
      case True
      show ?thesis
      proof (cases "domains b1 xi")
        case None
        with assms Inr p True show ?thesis by (simp add: ac2_step_def arc)
      next
        case (Some d)
        with assms Inr p True show ?thesis
          by (cases "d = []") (simp_all add: ac2_step_def arc)
      qed
    qed
  qed
qed

lemma ac2_step_keeps_inv:
  assumes step: "ac2_step b arc q = Inr (b', q')" and inv: "queue_inv b (arc # q)"
  shows "queue_inv b' q'"
proof -
  obtain xi xj where arc: "arc = (xi, xj)" by (cases arc) auto
  from step obtain revised where rv: "revise b xi xj = Inr (revised, b')"
    unfolding ac2_step_def arc
    by (simp split: sum.splits prod.splits if_splits option.splits)
  note fr = revise_frame[OF rv]
  have ar: "arcs b' = arcs b" by (simp add: arcs_def fr)
  show ?thesis
  proof (cases revised)
    case False
    with rv have rvF: "revise b xi xj = Inr (False, b')" by simp
    then have b': "b' = b" by (rule revise_unchanged)
    from step rv False have q': "q' = q" by (simp add: ac2_step_def arc)
    show ?thesis unfolding queue_inv_def b' q'
    proof
      fix e assume e: "e \<in> arcs b"
      show "e \<in> set q \<or> arc_consistent b (fst e) (snd e)"
      proof (cases "e = arc")
        case True
        with e arc have "xi \<noteq> xj" by (simp add: arcs_def)
        from revise_False[OF rvF this] True arc show ?thesis by simp
      next
        case ne: False
        with inv e show ?thesis unfolding queue_inv_def by auto
      qed
    qed
  next
    case True
    with rv have rv': "revise b xi xj = Inr (True, b')" by simp
    from revise_changed[OF rv'] obtain di di' where di: "domains b xi = Some di"
      and d': "domains b' = (domains b)(xi \<mapsto> di')" and sub: "set di' \<subseteq> set di" by blast
    from step rv' have q': "q' = q @ map (\<lambda>xk. (xk, xi))
        (filter (\<lambda>xk. xk \<noteq> xj) (get_neighbors b' xi))"
      unfolding ac2_step_def arc by (auto split: option.splits if_splits)
    have nb: "get_neighbors b' xi = get_neighbors b xi" by (simp add: get_neighbors_def fr)
    have cs: "inequality_constraints b' = inequality_constraints b" by (rule fr(3))
    show ?thesis unfolding queue_inv_def ar
    proof
      fix e assume e: "e \<in> arcs b"
      obtain a c where ac: "e = (a, c)" by (cases e) auto
      from e ac have anc: "a \<noteq> c" by (simp add: arcs_def)
      show "e \<in> set q' \<or> arc_consistent b' (fst e) (snd e)"
      proof (cases "e \<in> set q")
        case True
        then show ?thesis by (simp add: q')
      next
        case nq: False
        show ?thesis
        proof (cases "e = arc")
          case True
          with ac arc anc have x: "xi \<noteq> xj" "a = xi" "c = xj" by simp_all
          from revise_True[OF rv' x(1)] obtain ei ej where
            ei: "domains b xi = Some ei" "domains b xj = Some ej"
            "domains b' = (domains b)(xi \<mapsto>
               filter (\<lambda>x. list_ex (compatible (inequality_constraints b) xi xj x) ej) ei)"
            by blast
          have "arc_consistent b' xi xj"
            unfolding arc_consistent_def cs using ei x(1) by auto
          with ac x show ?thesis by simp
        next
          case na: False
          with inv e nq have con: "arc_consistent b a c"
            unfolding queue_inv_def ac by auto
          show ?thesis
          proof (cases "c = xi")
            case False
            have "arc_consistent b' a c"
              unfolding arc_consistent_def cs
            proof (intro allI impI ballI)
              fix da x assume da: "domains b' a = Some da" and x: "x \<in> set da"
              from da d' di sub obtain da0 where "domains b a = Some da0" "set da \<subseteq> set da0"
                by (cases "a = xi") auto
              with x con obtain dj where "domains b c = Some dj"
                "list_ex (compatible (inequality_constraints b) a c x) dj"
                unfolding arc_consistent_def by blast
              with False d' show "\<exists>dj. domains b' c = Some dj
                  \<and> list_ex (compatible (inequality_constraints b) a c x) dj" by simp
            qed
            with ac show ?thesis by simp
          next
            case cxi: True
            show ?thesis
            proof (cases "a = xj")
              case False
              from e ac cxi have "a \<in> set (get_neighbors b xi)" using arc_neighbor by blast
              with False have "(a, xi) \<in> set q'" unfolding q' nb by auto
              with ac cxi show ?thesis by simp
            next
              case axj: True
              with anc cxi have x: "xi \<noteq> xj" by simp
              from revise_True[OF rv' x] obtain ei ej where
                ei: "domains b xi = Some ei" "domains b xj = Some ej"
                "domains b' = (domains b)(xi \<mapsto>
                   filter (\<lambda>x. list_ex (compatible (inequality_constraints b) xi xj x) ej) ei)"
                by blast
              have "arc_consistent b' xj xi"
                unfolding arc_consistent_def cs
              proof (intro allI impI ballI)
                fix dj y assume dj: "domains b' xj = Some dj" and y: "y \<in> set dj"
                from dj ei x have dje: "dj = ej" by simp
                from con[unfolded axj cxi arc_consistent_def] ei(2) y dje ei(1)
                obtain z where z: "z \<in> set ei" "compatible (inequality_constraints b) xj xi y z"
                  unfolding list_ex_iff by auto
                from z(2) have "compatible (inequality_constraints b) xi xj z y"
                  by (simp add: compatible_swap[of _ xi xj z y])
                with y dje have "list_ex (compatible (inequality_constraints b) xi xj z) ej"
                  unfolding list_ex_iff by blast
                with z show "\<exists>d. domains b' xi = Some d
                  \<and> list_ex (compatible (inequality_constraints b) xj xi y) d"
                  unfolding ei(3) list_ex_iff by auto
              qed
              with ac axj cxi show ?thesis by simp
            qed
          qed
        qed
      qed
    qed
  qed
qed

lemma ac2_loop_fixpoint:
  "ac2_loop b q = Inr (True, b') \<Longrightarrow> queue_inv b q \<Longrightarrow> queue_inv b' []"
proof (induction b q rule: ac2_loop.induct)
  case (1 b)
  then show ?case by simp
next
  case (2 b arc queue)
  show ?case
  proof (cases "ac2_step b arc queue")
    case (Inl res)
    with "2.prems"(1) have "ac2_step b arc queue = Inl (Inr (True, b'))" by simp
    from ac2_step_Inl[OF this] show ?thesis by simp
  next
    case (Inr st)
    obtain b1 q1 where st: "st = (b1, q1)" by (cases st) auto
    with "2.prems"(1) Inr have l: "ac2_loop b1 q1 = Inr (True, b')" by simp
    from ac2_step_keeps_inv[OF Inr[unfolded st] "2.prems"(2)]
    show ?thesis by (rule "2.IH"[OF Inr st[symmetric] l])
  qed
qed

lemma pairs_after_covers:
  "x \<in> set xs \<Longrightarrow> y \<in> set xs \<Longrightarrow> x \<noteq> y
     \<Longrightarrow> (x, y) \<in> set (pairs_after xs) \<or> (y, x) \<in> set (pairs_after xs)"
  by (induction xs) auto

lemma is_constrained_swap: "is_constrained cs xj xi \<longleftrightarrow> is_constrained cs xi xj"
proof -
  have "(\<lambda>(v1, v2, op). (v1 = xj \<and> v2 = xi) \<or> (v1 = xi \<and> v2 = xj))
      = (\<lambda>(v1 :: cell, v2 :: cell, op :: string). (v1 = xi \<and> v2 = xj) \<or> (v1 = xj \<and> v2 = xi))"
    by (intro ext) (simp add: split_def disj_commute)
  then show ?thesis unfolding is_constrained_def by (simp only: eq_commute disj_commute) 
qed

lemma initial_queue_pair:
  assumes p: "(xi, xj) \<in> set (pairs_after (variables (board_size b)))"
    and c: "is_constrained (inequality_constraints b) xi xj"
  shows "(xi, xj) \<in> set (initial_queue b)" "(xj, xi) \<in> set (initial_queue b)"
proof -
  let ?f = "\<lambda>(xi, xj). if is_constrained (inequality_constraints b) xi xj
                then [(xi, xj), (xj, xi)] else []"
  from c have "(xi, xj) \<in> set (?f (xi, xj))" "(xj, xi) \<in> set (?f (xi, xj))" by simp_all
  with p show "(xi, xj) \<in> set (initial_queue b)" "(xj, xi) \<in> set (initial_queue b)"
    unfolding initial_queue_def set_concat set_map by blast+
qed

lemma arcs_in_initial_queue:
  assumes "arc \<in> arcs b"
  shows "arc \<in> set (initial_queue b)"
proof -
  obtain xi xj where arc: "arc = (xi, xj)" by (cases arc) auto
  from assms have v: "xi \<in> set (variables (board_size b))" "xj \<in> set (variables (board_size b))"
    and ne: "xi \<noteq> xj" and c: "is_constrained (inequality_constraints b) xi xj"
    unfolding arc arcs_def by simp_all
  from pairs_after_covers[OF v ne] show ?thesis
  proof
    assume "(xi, xj) \<in> set (pairs_after (variables (board_size b)))"
    from initial_queue_pair(1)[OF this c] show ?thesis unfolding arc .
  next
    assume p: "(xj, xi) \<in> set (pairs_after (variables (board_size b)))"
    from c have "is_constrained (inequality_constraints b) xj xi" by (simp only: is_constrained_swap)
    from initial_queue_pair(2)[OF p this] show ?thesis unfolding arc .
  qed
qed

lemma ac2_arc_consistent:
  assumes "ac2 b = Inr (True, b')" and "(xi, xj) \<in> arcs b"
  shows "arc_consistent b' xi xj"
proof -
  have "queue_inv b (initial_queue b)"
    unfolding queue_inv_def using arcs_in_initial_queue by blast
  with assms(1) have "queue_inv b' []" unfolding ac2_def by (rule ac2_loop_fixpoint)
  moreover from ac2_frame[OF assms(1)] have "arcs b' = arcs b" by (rule arcs_same_frame)
  ultimately show ?thesis using assms(2) unfolding queue_inv_def by fastforce
qed

text \<open>
  What the claim asks of a pair of values: different values for two cells of one
  row or column, and every inequality constraint between the two cells satisfied.
\<close>

definition inequality_holds :: "string \<Rightarrow> int \<Rightarrow> int \<Rightarrow> bool" where
  "inequality_holds op u w \<longleftrightarrow> (op = ''<'' \<and> u < w) \<or> (op = ''>'' \<and> u > w)"

definition constraint_satisfied :: "cell \<Rightarrow> cell \<Rightarrow> int \<Rightarrow> int \<Rightarrow> constraint \<Rightarrow> bool" where
  "constraint_satisfied xi xj x y t \<longleftrightarrow>
     (case t of (a, c, op) \<Rightarrow>
        (a = xi \<and> c = xj \<longrightarrow> inequality_holds op x y)
        \<and> (a = xj \<and> c = xi \<longrightarrow> inequality_holds op y x))"

definition jointly_satisfy :: "constraint list \<Rightarrow> cell \<Rightarrow> cell \<Rightarrow> int \<Rightarrow> int \<Rightarrow> bool" where
  "jointly_satisfy cs xi xj x y \<longleftrightarrow>
     ((fst xi = fst xj \<or> snd xi = snd xj) \<longrightarrow> x \<noteq> y)
     \<and> list_all (constraint_satisfied xi xj x y) cs"

lemma met_satisfied:
  assumes "xi \<noteq> xj" "met xi xj x y t"
  shows "constraint_satisfied xi xj x y t"
proof -
  obtain a c op where t: "t = (a, c, op)" by (cases t) auto
  from assms show ?thesis unfolding t met_def constraint_satisfied_def inequality_holds_def
    by (simp only: fst_conv snd_conv prod.case) blast
qed

lemma not_links_satisfied:
  assumes "\<not> links xi xj t"
  shows "constraint_satisfied xi xj x y t"
proof -
  obtain a c op where t: "t = (a, c, op)" by (cases t) auto
  from assms show ?thesis unfolding t links_def constraint_satisfied_def
    by (simp only: fst_conv snd_conv prod.case) blast
qed

lemma at_most_one: "length xs \<le> 1 \<Longrightarrow> a \<in> set xs \<Longrightarrow> b \<in> set xs \<Longrightarrow> a = b"
  by (cases xs) auto

lemma compatible_jointly:
  assumes ne: "xi \<noteq> xj" and c: "compatible cs xi xj x y"
    and one: "length (filter (links xi xj) cs) \<le> 1"
  shows "jointly_satisfy cs xi xj x y"
proof -
  have "constraint_satisfied xi xj x y t" if t: "t \<in> set cs" for t
  proof (cases "links xi xj t")
    case False
    then show ?thesis by (rule not_links_satisfied)
  next
    case True
    with t have "list_ex (links xi xj) cs" unfolding list_ex_iff by blast
    with c have "list_ex (met xi xj x y) cs" unfolding compatible_def by blast
    then obtain t' where t': "t' \<in> set cs" "met xi xj x y t'" unfolding list_ex_iff by blast
    from t'(2) have "links xi xj t'" by (rule met_links)
    with t' t True have "t \<in> set (filter (links xi xj) cs)" "t' \<in> set (filter (links xi xj) cs)"
      by simp_all
    from at_most_one[OF one this] t'(2) have "met xi xj x y t" by simp
    with ne show ?thesis by (rule met_satisfied)
  qed
  moreover from c have "(fst xi = fst xj \<or> snd xi = snd xj) \<longrightarrow> x \<noteq> y"
    unfolding compatible_def by blast
  ultimately show ?thesis unfolding jointly_satisfy_def list_all_iff by blast
qed

text \<open>
  Two constraint lists on a 2x2 board: one inequality between (0,0) and (0,1), and
  two inequalities between the same cells that contradict each other.
\<close>

definition ordered_pair_constraints :: "constraint list" where
  "ordered_pair_constraints = [((0, 0), (0, 1), ''<'')]"

definition two_way_constraints :: "constraint list" where
  "two_way_constraints = [((0, 0), (0, 1), ''<''), ((0, 0), (0, 1), ''>'')]"

text \<open>
  C5 (as amended).  When \<open>ac2\<close> returns True, for two distinct cells \<open>xi\<close>, \<open>xj\<close> of
  the board that are directly constrained (same row, same column, or linked by an
  inequality) and linked by at most one inequality constraint, every value \<open>x\<close> left
  in the domain of \<open>xi\<close> has a value \<open>y\<close> in the domain of \<open>xj\<close> such that \<open>x\<close> and \<open>y\<close>
  differ when the cells share a row or column and satisfy every inequality between
  the two cells.
\<close>

theorem ac2_values_supported:
  assumes "ac2 b = Inr (True, b')"
    and "xi \<in> set (variables (board_size b))" "xj \<in> set (variables (board_size b))"
    and "xi \<noteq> xj" "is_constrained (inequality_constraints b) xi xj"
    and "length (filter (links xi xj) (inequality_constraints b)) \<le> 1"
    and "domains b' xi = Some di" "x \<in> set di"
  shows "\<exists>dj y. domains b' xj = Some dj \<and> y \<in> set dj
     \<and> jointly_satisfy (inequality_constraints b) xi xj x y"
proof -
  from assms(2-5) have "(xi, xj) \<in> arcs b" by (simp add: arcs_def)
  from ac2_arc_consistent[OF assms(1) this] assms(7,8)
  obtain dj where dj: "domains b' xj = Some dj"
    "list_ex (compatible (inequality_constraints b') xi xj x) dj"
    unfolding arc_consistent_def by blast
  from ac2_frame[OF assms(1)] have cs: "inequality_constraints b' = inequality_constraints b"
    by (simp add: same_frame_def)
  from dj(2) obtain y where y: "y \<in> set dj" "compatible (inequality_constraints b) xi xj x y"
    unfolding cs list_ex_iff by blast
  from compatible_jointly[OF assms(4) y(2) assms(6)] dj(1) y(1) show ?thesis by blast
qed

theorem ac2_values_supported_witness:
  "(case FutoshikiBoard 2 None (Some ordered_pair_constraints) of
      Inl e \<Rightarrow> False
    | Inr b \<Rightarrow>
        (case ac2 b of
           Inr (True, b') \<Rightarrow>
             (0, 0) \<in> set (variables (board_size b)) \<and> (0, 1) \<in> set (variables (board_size b))
             \<and> is_constrained (inequality_constraints b) (0, 0) (0, 1)
             \<and> length (filter (links (0, 0) (0, 1)) (inequality_constraints b)) \<le> 1
             \<and> domains b' (0, 0) = Some [1]
             \<and> (\<exists>dj y. domains b' (0, 1) = Some dj \<and> y \<in> set dj
                   \<and> jointly_satisfy (inequality_constraints b) (0, 0) (0, 1) 1 y)
         | _ \<Rightarrow> False))"
proof -
  let ?F = "FutoshikiBoard 2 None (Some ordered_pair_constraints)"
  define b where "b = projr ?F"
  define b' where "b' = snd (projr (ac2 b))"
  have "\<not> isl ?F" by code_simp
  then have F: "?F = Inr b" unfolding b_def by (cases ?F) simp_all
  have "\<not> isl (ac2 b) \<and> fst (projr (ac2 b))" unfolding b_def by code_simp
  then have a: "ac2 b = Inr (True, b')" unfolding b'_def by (cases "ac2 b") auto
  have v: "(0, 0) \<in> set (variables (board_size b))" "(0, 1) \<in> set (variables (board_size b))"
    unfolding b_def by code_simp+
  have ne: "((0, 0) :: cell) \<noteq> (0, 1)" by simp
  have c: "is_constrained (inequality_constraints b) (0, 0) (0, 1)" unfolding b_def by code_simp
  have l: "length (filter (links (0, 0) (0, 1)) (inequality_constraints b)) \<le> 1"
    unfolding b_def by code_simp
  have d: "domains b' (0, 0) = Some [1]" unfolding b'_def b_def by code_simp
  have x: "(1 :: int) \<in> set [1]" by simp
  from ac2_values_supported[OF a v ne c l d x] v c l d
  show ?thesis by (simp add: F a)
qed

text \<open>
  C5 as stated fails: with the two inequalities (0,0) < (0,1) and (0,0) > (0,1) on
  an empty 2x2 board, \<open>ac2\<close> returns True and removes nothing, although no value of
  (0,1) satisfies both inequalities together with the value 1 of (0,0).  \<open>revise\<close>
  accepts a pair of values as soon as one inequality between the cells holds.
\<close>

theorem ac2_accepts_contradictory_pair_counterexample:
  "(case FutoshikiBoard 2 None (Some two_way_constraints) of
      Inl e \<Rightarrow> False
    | Inr b \<Rightarrow>
        (case ac2 b of
           Inr (True, b') \<Rightarrow>
             is_constrained (inequality_constraints b) (0, 0) (0, 1)
             \<and> domains b' (0, 0) = Some [1, 2] \<and> domains b' (0, 1) = Some [1, 2]
             \<and> \<not> list_ex (jointly_satisfy (inequality_constraints b) (0, 0) (0, 1) 1) [1, 2]
         | _ \<Rightarrow> False))"
  by code_simp

end
